theory Spec2Isabelle
  imports Main "HOL-Library.Word"
begin

unbundle bit_operations_syntax

section \<open>The chat server of \<^verbatim>\<open>chat-server.c\<close>\<close>

text \<open>
  The program is a single-threaded relay on libev and winsock. Its three functions
  \<^verbatim>\<open>read_cb\<close>, \<^verbatim>\<open>accept_cb\<close> and \<^verbatim>\<open>main\<close> are embedded as functions on an
  explicit state: the heap of \<^verbatim>\<open>client_t\<close> objects, the tail queue of clients, the
  listener, the watchers started in the event loop, the open sockets with their blocking
  mode, and the list of library calls issued so far.
  Whatever the operating system or a library hands back (the value of \<^verbatim>\<open>recv\<close>,
  \<^verbatim>\<open>accept\<close>, \<^verbatim>\<open>calloc\<close>, \<^verbatim>\<open>send\<close>, ...) is an argument of the embedded function.
\<close>

subsection \<open>Types and constants\<close>

type_synonym SOCKET = "64 word"
type_synonym ptr = nat
type_synonym byte = "8 word"

text \<open>\<^verbatim>\<open>#define SERVER_PORT 5555\<close>; the others come from the winsock, CRT and libev headers.\<close>

definition SERVER_PORT :: nat where
  "SERVER_PORT = 5555"

definition INVALID_SOCKET :: SOCKET where
  "INVALID_SOCKET = NOT 0"

definition WSAEWOULDBLOCK :: int where
  "WSAEWOULDBLOCK = 10035"

definition NULL :: ptr where
  "NULL = 0"

definition EXIT_FAILURE :: int where
  "EXIT_FAILURE = 1"

definition EV_READ :: "32 word" where
  "EV_READ = 0x01"

definition EV_ERROR :: "32 word" where
  "EV_ERROR = 0x80000000"

subsection \<open>Data\<close>

datatype callback = Read_cb | Accept_cb

text \<open>
  libev's \<^verbatim>\<open>ev_io\<close>: \<^verbatim>\<open>active\<close> is nonzero exactly between \<^verbatim>\<open>ev_io_start\<close> and
  \<^verbatim>\<open>ev_io_stop\<close>; \<^verbatim>\<open>cb\<close>, \<^verbatim>\<open>fd\<close> and \<^verbatim>\<open>events\<close> are what \<^verbatim>\<open>ev_io_init\<close> stores. The
  descriptor is the value of \<^verbatim>\<open>_open_osfhandle\<close>, which the program passes on unchecked; it is
  stored here and not looked at.
\<close>

record ev_io =
  active :: bool
  cb :: "callback option"
  fd :: int
  events :: "32 word"

text \<open>
  \<^verbatim>\<open>struct client_t\<close>. The \<^verbatim>\<open>entries\<close> links are the position of the object's address in
  the list \<open>client_tailq_head\<close> of the state.
\<close>

record client_t =
  io :: ev_io
  socketd :: SOCKET

text \<open>\<^verbatim>\<open>struct server_t\<close> (the fields carry a prefix, record fields being global names).\<close>

record server_t =
  server_io :: ev_io
  server_socketd :: SOCKET

datatype watcher = Server_watcher | Client_watcher ptr

text \<open>The library calls the program issues, with the arguments that matter here.\<close>

datatype call =
    WSAStartup
  | Socket
  | Ioctlsocket_FIONBIO SOCKET
  | Setsockopt_REUSEADDR SOCKET
  | Bind SOCKET nat
  | Listen SOCKET nat
  | Accept SOCKET
  | Recv SOCKET
  | Send SOCKET "byte list"
  | Closesocket SOCKET
  | Calloc
  | Free ptr
  | Open_osfhandle SOCKET
  | Ev_io_start watcher
  | Ev_io_stop watcher
  | Ev_loop
  | Stdout string
  | Stderr string

text \<open>
  \<open>loop\<close> is what \<^verbatim>\<open>struct ev_loop\<close> holds of the program's watchers: those started and not
  stopped since. \<open>open_sockets\<close> and \<open>nonblocking\<close> are the system's side: the sockets created
  and not closed since, and those of them in non-blocking mode.
\<close>

record world =
  heap :: "ptr \<rightharpoonup> client_t"
  client_tailq_head :: "ptr list"
  w_accept :: server_t
  loop :: "watcher set"
  open_sockets :: "SOCKET set"
  nonblocking :: "SOCKET set"
  calls :: "call list"

text \<open>
  Two ways for a callback not to return a state: the script of \<^verbatim>\<open>recv\<close> results is used up
  while the loop \<^verbatim>\<open>for (;;)\<close> still runs, or the C code dereferences or unlinks an object
  that is not there.
\<close>

datatype fault = Recv_pending | Invalid_pointer ptr | Not_linked ptr

definition emit :: "call \<Rightarrow> world \<Rightarrow> world" where
  "emit c s = s\<lparr>calls := calls s @ [c]\<rparr>"

subsection \<open>Diagnostics\<close>

text \<open>
  \<^verbatim>\<open>socket_perror\<close> prints \<^verbatim>\<open>"%s: %s\n"\<close> to stderr; the second string is the system's text
  for \<^verbatim>\<open>WSAGetLastError()\<close>. \<^verbatim>\<open>perror\<close> of the CRT prints the same shape.
\<close>

definition socket_perror :: "string \<Rightarrow> string \<Rightarrow> world \<Rightarrow> world" where
  "socket_perror message buffer s = emit (Stderr (message @ '': '' @ buffer @ [CHR 0x0A])) s"

definition perror :: "string \<Rightarrow> string \<Rightarrow> world \<Rightarrow> world" where
  "perror message text s = emit (Stderr (message @ '': '' @ text @ [CHR 0x0A])) s"

subsection \<open>The library operations on the state\<close>

definition ev_io_init :: "callback \<Rightarrow> int \<Rightarrow> 32 word \<Rightarrow> ev_io" where
  "ev_io_init f d e = \<lparr>active = False, cb = Some f, fd = d, events = e\<rparr>"

definition ev_io_start :: "ptr \<Rightarrow> world \<Rightarrow> fault + world" where
  "ev_io_start p s =
     (case heap s p of
        None \<Rightarrow> Inl (Invalid_pointer p)
      | Some c \<Rightarrow>
          Inr (emit (Ev_io_start (Client_watcher p))
                 (s\<lparr>heap := (heap s)(p \<mapsto> c\<lparr>io := (io c)\<lparr>active := True\<rparr>\<rparr>),
                    loop := insert (Client_watcher p) (loop s)\<rparr>)))"

definition ev_io_stop :: "ptr \<Rightarrow> world \<Rightarrow> fault + world" where
  "ev_io_stop p s =
     (case heap s p of
        None \<Rightarrow> Inl (Invalid_pointer p)
      | Some c \<Rightarrow>
          Inr (emit (Ev_io_stop (Client_watcher p))
                 (s\<lparr>heap := (heap s)(p \<mapsto> c\<lparr>io := (io c)\<lparr>active := False\<rparr>\<rparr>),
                    loop := loop s - {Client_watcher p}\<rparr>)))"

definition TAILQ_INSERT_TAIL :: "ptr \<Rightarrow> world \<Rightarrow> world" where
  "TAILQ_INSERT_TAIL p s = s\<lparr>client_tailq_head := client_tailq_head s @ [p]\<rparr>"

definition TAILQ_REMOVE :: "ptr \<Rightarrow> world \<Rightarrow> fault + world" where
  "TAILQ_REMOVE p s =
     (if p \<in> set (client_tailq_head s)
      then Inr (s\<lparr>client_tailq_head := remove1 p (client_tailq_head s)\<rparr>)
      else Inl (Not_linked p))"

text \<open>\<^verbatim>\<open>closesocket\<close>: the socket is gone, and its mode with it.\<close>

definition closesocket :: "SOCKET \<Rightarrow> world \<Rightarrow> world" where
  "closesocket sd s =
     emit (Closesocket sd)
       (s\<lparr>open_sockets := open_sockets s - {sd}, nonblocking := nonblocking s - {sd}\<rparr>)"

definition free :: "ptr \<Rightarrow> world \<Rightarrow> world" where
  "free p s = emit (Free p) (s\<lparr>heap := (heap s)(p := None)\<rparr>)"

text \<open>
  \<^verbatim>\<open>send (client->socketd, buffer, read, 0)\<close>: the call is issued and its value, the first
  argument here, is dropped, as the statement in the source drops it.
\<close>

definition send :: "int \<Rightarrow> SOCKET \<Rightarrow> byte list \<Rightarrow> world \<Rightarrow> world" where
  "send ret sd bytes s = emit (Send sd bytes) s"

subsection \<open>\<^verbatim>\<open>read_cb\<close>\<close>

text \<open>
  One result of \<^verbatim>\<open>recv\<close>: the value returned, the contents of \<^verbatim>\<open>buffer\<close> after the call,
  and what \<^verbatim>\<open>WSAGetLastError()\<close> would answer.
\<close>

record recv_result =
  recv_ret :: int
  recv_buffer :: "byte list"
  recv_error :: int

text \<open>
  \<^verbatim>\<open>TAILQ_FOREACH (client, &client_tailq_head, entries)\<close> with the conditional \<^verbatim>\<open>send\<close> as
  its body (lines 170 to 177), over the clients still to visit.
\<close>

fun tailq_foreach_send ::
  "(SOCKET \<Rightarrow> byte list \<Rightarrow> int) \<Rightarrow> ptr \<Rightarrow> byte list \<Rightarrow> ptr list \<Rightarrow> world \<Rightarrow> fault + world"
where
  "tailq_foreach_send send_ret this_client bytes [] s = Inr s"
| "tailq_foreach_send send_ret this_client bytes (client # rest) s =
     (if client \<noteq> this_client
      then (case heap s client of
              None \<Rightarrow> Inl (Invalid_pointer client)
            | Some c \<Rightarrow>
                tailq_foreach_send send_ret this_client bytes rest
                  (send (send_ret (socketd c) bytes) (socketd c) bytes s))
      else tailq_foreach_send send_ret this_client bytes rest s)"

text \<open>Lines 157 to 166: the branch \<^verbatim>\<open>read <= 0\<close>.\<close>

definition read_cb_close :: "ptr \<Rightarrow> client_t \<Rightarrow> world \<Rightarrow> fault + world" where
  "read_cb_close this_client tc s =
     (case ev_io_stop this_client s of
        Inl e \<Rightarrow> Inl e
      | Inr s1 \<Rightarrow>
          (case TAILQ_REMOVE this_client s1 of
             Inl e \<Rightarrow> Inl e
           | Inr s2 \<Rightarrow> Inr (free this_client (closesocket (socketd tc) s2))))"

text \<open>
  The loop \<^verbatim>\<open>for (;;)\<close> of \<^verbatim>\<open>read_cb\<close>, one \<^verbatim>\<open>recv\<close> result of the script per round.
  \<open>send_ret\<close> gives the value of each \<^verbatim>\<open>send\<close>.
\<close>

fun read_cb ::
  "recv_result list \<Rightarrow> (SOCKET \<Rightarrow> byte list \<Rightarrow> int) \<Rightarrow> ptr \<Rightarrow> world \<Rightarrow> fault + world"
where
  "read_cb [] send_ret this_client s = Inl Recv_pending"
| "read_cb (r # rs) send_ret this_client s =
     (case heap s this_client of
        None \<Rightarrow> Inl (Invalid_pointer this_client)
      | Some tc \<Rightarrow>
          (let s1 = emit (Recv (socketd tc)) s;
               read = recv_ret r
           in if read < 0 \<and> WSAEWOULDBLOCK = recv_error r then Inr s1
              else if read \<le> 0 then read_cb_close this_client tc s1
              else (case tailq_foreach_send send_ret this_client
                           (take (nat read) (recv_buffer r)) (client_tailq_head s1) s1 of
                      Inl e \<Rightarrow> Inl e
                    | Inr s2 \<Rightarrow> read_cb rs send_ret this_client s2)))"

subsection \<open>\<^verbatim>\<open>accept_cb\<close>\<close>

text \<open>
  What one run of \<^verbatim>\<open>accept_cb\<close> is handed: the event mask, the value of \<^verbatim>\<open>accept\<close>, whether
  the socket \<^verbatim>\<open>accept\<close> created is in non-blocking mode, the text of \<^verbatim>\<open>inet_ntoa\<close> for the
  address \<^verbatim>\<open>accept\<close> filled in, the value of \<^verbatim>\<open>calloc\<close>, the descriptor of
  \<^verbatim>\<open>_open_osfhandle\<close>, and the system's text for the current error.
\<close>

record accept_env =
  revents :: "32 word"
  accept_ret :: SOCKET
  accept_nonblocking :: bool
  inet_ntoa_ret :: string
  calloc_ret :: ptr
  open_osfhandle_ret :: int
  error_text :: string

definition on_ok :: "fault + 'a \<Rightarrow> ('a \<Rightarrow> fault + 'b) \<Rightarrow> fault + 'b" where
  "on_ok m f = (case m of Inl e \<Rightarrow> Inl e | Inr x \<Rightarrow> f x)"

text \<open>A write through a \<^verbatim>\<open>struct client_t*\<close>.\<close>

definition update_client :: "ptr \<Rightarrow> (client_t \<Rightarrow> client_t) \<Rightarrow> world \<Rightarrow> fault + world" where
  "update_client p f s =
     (case heap s p of
        None \<Rightarrow> Inl (Invalid_pointer p)
      | Some c \<Rightarrow> Inr (s\<lparr>heap := (heap s)(p \<mapsto> f c)\<rparr>))"

text \<open>
  \<^verbatim>\<open>accept\<close>: a value other than \<^verbatim>\<open>INVALID_SOCKET\<close> is a socket that is now open, in the mode
  the system created it in (the third argument).
\<close>

definition accept :: "SOCKET \<Rightarrow> SOCKET \<Rightarrow> bool \<Rightarrow> world \<Rightarrow> world" where
  "accept listener ret nb s =
     emit (Accept listener)
       (if ret = INVALID_SOCKET then s
        else s\<lparr>open_sockets := insert ret (open_sockets s),
               nonblocking := (if nb then insert ret (nonblocking s)
                               else nonblocking s - {ret})\<rparr>)"

text \<open>\<^verbatim>\<open>calloc (1, sizeof (*client))\<close>: a value other than \<^verbatim>\<open>NULL\<close> is a new, zeroed object.\<close>

definition zeroed_client :: client_t where
  "zeroed_client = \<lparr>io = \<lparr>active = False, cb = None, fd = 0, events = 0\<rparr>, socketd = 0\<rparr>"

definition calloc :: "ptr \<Rightarrow> world \<Rightarrow> world" where
  "calloc ret s =
     emit Calloc (if ret = NULL then s else s\<lparr>heap := (heap s)(ret \<mapsto> zeroed_client)\<rparr>)"

definition accept_cb :: "accept_env \<Rightarrow> world \<Rightarrow> fault + world" where
  "accept_cb env s =
     (if EV_ERROR AND revents env \<noteq> 0
      then Inr (perror ''Got invalid event'' (error_text env) s)
      else
        (let client_socket = accept_ret env;
             s1 = accept (server_socketd (w_accept s)) client_socket
                    (accept_nonblocking env) s
         in if INVALID_SOCKET = client_socket
            then Inr (socket_perror ''Accept error'' (error_text env) s1)
            else
              (let client = calloc_ret env;
                   s2 = calloc client s1
               in if client = NULL
                  then Inr (perror ''malloc failed'' (error_text env) s2)
                  else
                    on_ok (update_client client (\<lambda>c. c\<lparr>socketd := client_socket\<rparr>) s2) (\<lambda>s3.
                    on_ok (update_client client
                             (\<lambda>c. c\<lparr>io := ev_io_init Read_cb (open_osfhandle_ret env) EV_READ\<rparr>)
                             (emit (Open_osfhandle client_socket) s3)) (\<lambda>s4.
                    on_ok (ev_io_start client (TAILQ_INSERT_TAIL client s4)) (\<lambda>s5.
                    Inr (emit (Stdout (''Accepted connection from '' @ inet_ntoa_ret env
                                        @ [CHR 0x0A])) s5)))))))"

subsection \<open>\<^verbatim>\<open>main\<close>\<close>

record main_env =
  socket_ret :: SOCKET
  ioctlsocket_ret :: int
  setsockopt_ret :: int
  bind_ret :: int
  listen_ret :: int
  listen_fd_ret :: int
  main_error_text :: string

text \<open>
  \<^verbatim>\<open>main\<close> either returns a status, or reaches \<^verbatim>\<open>for (;;) ev_loop (loop, 0)\<close>, from which it
  does not return: then the result is the state in which the dispatch starts.
\<close>

datatype main_result = Exit int world | Event_loop world

text \<open>
  The state at process start. \<^verbatim>\<open>w_accept\<close> is a local of \<^verbatim>\<open>main\<close> that is written before it
  is read; it starts here as zeroes.
\<close>

definition process_start :: world where
  "process_start =
     \<lparr>heap = Map.empty, client_tailq_head = [],
      w_accept = \<lparr>server_io = \<lparr>active = False, cb = None, fd = 0, events = 0\<rparr>,
                  server_socketd = 0\<rparr>,
      loop = {}, open_sockets = {}, nonblocking = {}, calls = []\<rparr>"

definition TAILQ_INIT :: "world \<Rightarrow> world" where
  "TAILQ_INIT s = s\<lparr>client_tailq_head := []\<rparr>"

text \<open>\<^verbatim>\<open>socket\<close>: a value other than \<^verbatim>\<open>INVALID_SOCKET\<close> is a new open socket, in blocking mode.\<close>

definition socket :: "SOCKET \<Rightarrow> world \<Rightarrow> world" where
  "socket ret s =
     emit Socket
       (if ret = INVALID_SOCKET then s
        else s\<lparr>open_sockets := insert ret (open_sockets s),
               nonblocking := nonblocking s - {ret}\<rparr>)"

text \<open>
  \<^verbatim>\<open>ioctlsocket (sd, FIONBIO, &nonblock_mode)\<close> with \<^verbatim>\<open>nonblock_mode = 1\<close>: when it returns 0,
  the socket is in non-blocking mode.
\<close>

definition ioctlsocket :: "int \<Rightarrow> SOCKET \<Rightarrow> world \<Rightarrow> world" where
  "ioctlsocket ret sd s =
     emit (Ioctlsocket_FIONBIO sd)
       (if ret = 0 then s\<lparr>nonblocking := insert sd (nonblocking s)\<rparr> else s)"

definition main :: "main_env \<Rightarrow> main_result" where
  "main env =
     (let s0 = TAILQ_INIT (emit WSAStartup process_start);
          listen_socket = socket_ret env;
          s1 = socket listen_socket s0
      in if INVALID_SOCKET = listen_socket
         then Exit EXIT_FAILURE (socket_perror ''socket'' (main_error_text env) s1)
         else
           (let s2 = ioctlsocket (ioctlsocket_ret env) listen_socket s1
            in if 0 \<noteq> ioctlsocket_ret env
               then Exit EXIT_FAILURE (socket_perror ''ioctlsocket'' (main_error_text env) s2)
               else
                 (let s3 = emit (Setsockopt_REUSEADDR listen_socket) s2
                  in if 0 \<noteq> setsockopt_ret env
                     then Exit EXIT_FAILURE
                            (socket_perror ''setsockopt'' (main_error_text env) s3)
                     else
                       (let s4 = emit (Bind listen_socket SERVER_PORT) s3
                        in if 0 \<noteq> bind_ret env
                           then Exit EXIT_FAILURE
                                  (socket_perror ''bind'' (main_error_text env) s4)
                           else
                             (let s5 = emit (Listen listen_socket 5) s4
                              in if 0 \<noteq> listen_ret env
                                 then Exit EXIT_FAILURE
                                        (socket_perror ''listen'' (main_error_text env) s5)
                                 else
                                   (let listen_fd = listen_fd_ret env;
                                        s6 = emit (Open_osfhandle listen_socket) s5;
                                        s7 = s6\<lparr>w_accept :=
                                               \<lparr>server_io = ev_io_init Accept_cb listen_fd EV_READ,
                                                server_socketd = listen_socket\<rparr>\<rparr>;
                                        s8 = emit (Ev_io_start Server_watcher)
                                               (s7\<lparr>w_accept := (w_accept s7)
                                                     \<lparr>server_io := (server_io (w_accept s7))
                                                        \<lparr>active := True\<rparr>\<rparr>,
                                                   loop := insert Server_watcher (loop s7)\<rparr>)
                                    in Event_loop (emit Ev_loop s8)))))))"

subsection \<open>The dispatch loop\<close>

text \<open>
  What the system guarantees about the values it hands to \<^verbatim>\<open>accept_cb\<close>: a socket returned by
  \<^verbatim>\<open>accept\<close> is not one that is already open, and it has the mode of the listening socket
  (winsock creates the new socket with the properties of the socket it was accepted on); an
  object returned by \<^verbatim>\<open>calloc\<close> is not one that is still allocated.
\<close>

definition accept_env_ok :: "accept_env \<Rightarrow> world \<Rightarrow> bool" where
  "accept_env_ok env s \<longleftrightarrow>
     (accept_ret env = INVALID_SOCKET \<or>
      accept_ret env \<notin> open_sockets s \<and>
      accept_nonblocking env = (server_socketd (w_accept s) \<in> nonblocking s)) \<and>
     (calloc_ret env = NULL \<or> heap s (calloc_ret env) = None)"

text \<open>
  The sockets a run of \<^verbatim>\<open>accept_cb\<close> leaves without a client object: the accepted socket, when
  \<^verbatim>\<open>accept\<close> was called and returned one and \<^verbatim>\<open>calloc\<close> returned \<^verbatim>\<open>NULL\<close>.
\<close>

definition unwrapped :: "accept_env \<Rightarrow> SOCKET set" where
  "unwrapped env =
     (if EV_ERROR AND revents env = 0 \<and> accept_ret env \<noteq> INVALID_SOCKET \<and>
         calloc_ret env = NULL
      then {accept_ret env} else {})"

text \<open>
  The states at which no callback runs, each with the sockets left without a client object
  on the way to it. libev calls \<^verbatim>\<open>accept_cb\<close> for the listener's watcher and \<^verbatim>\<open>read_cb\<close> for a
  client's watcher, and only for a watcher that is started; each callback runs to its end
  before the next one starts.
\<close>

inductive reachable :: "SOCKET set \<Rightarrow> world \<Rightarrow> bool" where
  started: "main env = Event_loop s \<Longrightarrow> reachable {} s"
| accepted: "reachable U s \<Longrightarrow> Server_watcher \<in> loop s \<Longrightarrow> accept_env_ok env s \<Longrightarrow>
     accept_cb env s = Inr s' \<Longrightarrow> reachable (U \<union> unwrapped env) s'"
| read: "reachable U s \<Longrightarrow> Client_watcher p \<in> loop s \<Longrightarrow>
     read_cb rs send_ret p s = Inr s' \<Longrightarrow> reachable U s'"

section \<open>Vocabulary of the properties\<close>

text \<open>The bytes a \<^verbatim>\<open>recv\<close> stored: the first \<^verbatim>\<open>read\<close> bytes of \<^verbatim>\<open>buffer\<close>.\<close>

definition chunk :: "recv_result \<Rightarrow> byte list" where
  "chunk r = take (nat (recv_ret r)) (recv_buffer r)"

text \<open>The sockets of the clients in the queue other than \<open>P\<close>, in queue order.\<close>

definition other_sockets :: "ptr \<Rightarrow> world \<Rightarrow> SOCKET list" where
  "other_sockets P s =
     map (\<lambda>q. socketd (the (heap s q))) (filter (\<lambda>q. q \<noteq> P) (client_tailq_head s))"

text \<open>One \<^verbatim>\<open>recv\<close> on the socket of \<open>P\<close>, then one \<^verbatim>\<open>send\<close> of its bytes to each other socket.\<close>

definition round_calls :: "ptr \<Rightarrow> world \<Rightarrow> recv_result \<Rightarrow> call list" where
  "round_calls P s r =
     Recv (socketd (the (heap s P))) # map (\<lambda>sd. Send sd (chunk r)) (other_sockets P s)"

text \<open>What a list of calls sends to one socket: the byte strings of its sends, in order.\<close>

fun sent_to :: "SOCKET \<Rightarrow> call list \<Rightarrow> byte list list" where
  "sent_to sd [] = []"
| "sent_to sd (Send sd' b # cs) = (if sd' = sd then b # sent_to sd cs else sent_to sd cs)"
| "sent_to sd (c # cs) = sent_to sd cs"

text \<open>Every address in the queue is a live object; no two of them hold the same socket.\<close>

definition clients_allocated :: "world \<Rightarrow> bool" where
  "clients_allocated s \<longleftrightarrow> list_all (\<lambda>q. heap s q \<noteq> None) (client_tailq_head s)"

definition sockets_distinct :: "world \<Rightarrow> bool" where
  "sockets_distinct s \<longleftrightarrow>
     distinct (map (\<lambda>q. socketd (the (heap s q))) (client_tailq_head s))"

text \<open>A \<^verbatim>\<open>recv\<close> result that ends the loop by the branch \<^verbatim>\<open>read <= 0\<close>.\<close>

definition closes :: "recv_result \<Rightarrow> bool" where
  "closes r \<longleftrightarrow> recv_ret r = 0 \<or> (recv_ret r < 0 \<and> recv_error r \<noteq> WSAEWOULDBLOCK)"

text \<open>A \<^verbatim>\<open>recv\<close> result that ends the loop by \<^verbatim>\<open>break\<close>.\<close>

definition would_block :: "recv_result \<Rightarrow> bool" where
  "would_block r \<longleftrightarrow> recv_ret r < 0 \<and> recv_error r = WSAEWOULDBLOCK"

text \<open>The calls that move data: \<^verbatim>\<open>recv\<close> and \<^verbatim>\<open>send\<close>.\<close>

fun is_transfer :: "call \<Rightarrow> bool" where
  "is_transfer (Recv sd) = True"
| "is_transfer (Send sd b) = True"
| "is_transfer c = False"

text \<open>The sockets held by the live client objects.\<close>

definition client_sockets :: "world \<Rightarrow> SOCKET set" where
  "client_sockets s = {sd. \<exists>p c. heap s p = Some c \<and> socketd c = sd}"

text \<open>
  The state is consistent, \<open>U\<close> being the accepted sockets that were left without a client
  object:
  \<^item> the queue holds each address once, and holds exactly the live client objects;
  \<^item> the watchers started in the loop are the listener's and those of the queued clients,
    and each live object has its \<^verbatim>\<open>active\<close> flag set;
  \<^item> no two live objects hold the same socket;
  \<^item> the open sockets are the listening socket, the sockets of the live objects and those
    of \<open>U\<close>, three kinds that do not overlap;
  \<^item> every open socket is in non-blocking mode.
\<close>

definition registry_consistent :: "SOCKET set \<Rightarrow> world \<Rightarrow> bool" where
  "registry_consistent U s \<longleftrightarrow>
     distinct (client_tailq_head s) \<and>
     set (client_tailq_head s) = dom (heap s) \<and>
     loop s = insert Server_watcher (Client_watcher ` set (client_tailq_head s)) \<and>
     (\<forall>p c. heap s p = Some c \<longrightarrow> active (io c)) \<and>
     (\<forall>p q c d. heap s p = Some c \<longrightarrow> heap s q = Some d \<longrightarrow> socketd c = socketd d \<longrightarrow> p = q) \<and>
     open_sockets s = insert (server_socketd (w_accept s)) (client_sockets s \<union> U) \<and>
     server_socketd (w_accept s) \<notin> client_sockets s \<union> U \<and>
     client_sockets s \<inter> U = {} \<and>
     open_sockets s \<subseteq> nonblocking s"

text \<open>The operation \<^verbatim>\<open>main\<close> reports when the startup fails: the first one that failed.\<close>

definition failed_operation :: "main_env \<Rightarrow> string" where
  "failed_operation env =
     (if socket_ret env = INVALID_SOCKET then ''socket''
      else if ioctlsocket_ret env \<noteq> 0 then ''ioctlsocket''
      else if setsockopt_ret env \<noteq> 0 then ''setsockopt''
      else if bind_ret env \<noteq> 0 then ''bind''
      else ''listen'')"

subsection \<open>Sample inputs\<close>

definition startup_ok :: main_env where
  "startup_ok =
     \<lparr>socket_ret = 4, ioctlsocket_ret = 0, setsockopt_ret = 0, bind_ret = 0, listen_ret = 0,
      listen_fd_ret = 3, main_error_text = []\<rparr>"

definition listener :: server_t where
  "listener =
     \<lparr>server_io = \<lparr>active = True, cb = Some Accept_cb, fd = 3, events = 0x01\<rparr>,
      server_socketd = 4\<rparr>"

definition startup_calls :: "call list" where
  "startup_calls =
     [WSAStartup, Socket, Ioctlsocket_FIONBIO 4, Setsockopt_REUSEADDR 4, Bind 4 5555,
      Listen 4 5, Open_osfhandle 4, Ev_io_start Server_watcher, Ev_loop]"

definition listening :: world where
  "listening =
     \<lparr>heap = Map.empty, client_tailq_head = [], w_accept = listener,
      loop = {Server_watcher}, open_sockets = {4}, nonblocking = {4},
      calls = startup_calls\<rparr>"

definition peer :: "int \<Rightarrow> SOCKET \<Rightarrow> client_t" where
  "peer d sd = \<lparr>io = \<lparr>active = True, cb = Some Read_cb, fd = d, events = 0x01\<rparr>, socketd = sd\<rparr>"

text \<open>Three clients A, B and C at the addresses 100, 200 and 300.\<close>

definition three_clients :: world where
  "three_clients =
     \<lparr>heap = [100 \<mapsto> peer 5 8, 200 \<mapsto> peer 6 12, 300 \<mapsto> peer 7 16],
      client_tailq_head = [100, 200, 300], w_accept = listener,
      loop = {Server_watcher, Client_watcher 100, Client_watcher 200, Client_watcher 300},
      open_sockets = {4, 8, 12, 16}, nonblocking = {4, 8, 12, 16}, calls = []\<rparr>"

definition hi :: recv_result where
  "hi = \<lparr>recv_ret = 2, recv_buffer = [0x68, 0x69], recv_error = 0\<rparr>"

definition no_more :: recv_result where
  "no_more = \<lparr>recv_ret = - 1, recv_buffer = [], recv_error = 10035\<rparr>"

definition closed :: recv_result where
  "closed = \<lparr>recv_ret = 0, recv_buffer = [], recv_error = 0\<rparr>"

definition reset :: recv_result where
  "reset = \<lparr>recv_ret = - 1, recv_buffer = [], recv_error = 10054\<rparr>"

definition connecting :: accept_env where
  "connecting =
     \<lparr>revents = 0x01, accept_ret = 8, accept_nonblocking = True,
      inet_ntoa_ret = ''10.0.0.7'', calloc_ret = 100, open_osfhandle_ret = 5,
      error_text = []\<rparr>"

definition port_taken :: main_env where
  "port_taken = startup_ok\<lparr>bind_ret := - 1, main_error_text := ''Address already in use''\<rparr>"

definition refused :: accept_env where
  "refused =
     \<lparr>revents = 0x01, accept_ret = 0xFFFFFFFFFFFFFFFF, accept_nonblocking = False,
      inet_ntoa_ret = [], calloc_ret = 0, open_osfhandle_ret = 0,
      error_text = ''Too many open sockets''\<rparr>"

definition out_of_memory :: accept_env where
  "out_of_memory = connecting\<lparr>calloc_ret := 0, error_text := ''Not enough space''\<rparr>"

definition one_client :: world where
  "one_client =
     \<lparr>heap = [100 \<mapsto> peer 5 8], client_tailq_head = [100], w_accept = listener,
      loop = {Server_watcher, Client_watcher 100},
      open_sockets = {4, 8}, nonblocking = {4, 8},
      calls = startup_calls @
        [Accept 4, Calloc, Open_osfhandle 8, Ev_io_start (Client_watcher 100),
         Stdout (''Accepted connection from 10.0.0.7'' @ [CHR 0x0A])]\<rparr>"

text \<open>A second connection, on socket 12, for which \<^verbatim>\<open>calloc\<close> returns \<^verbatim>\<open>NULL\<close>.\<close>

definition second_out_of_memory :: accept_env where
  "second_out_of_memory =
     \<lparr>revents = 0x01, accept_ret = 12, accept_nonblocking = True,
      inet_ntoa_ret = ''10.0.0.9'', calloc_ret = 0, open_osfhandle_ret = 0,
      error_text = ''Not enough space''\<rparr>"

text \<open>
  A run of the server: A connects (as above); a second connection on socket 12 is left
  without an object; B connects on socket 16 at address 200; then A closes.
\<close>

definition one_unwrapped :: world where
  "one_unwrapped =
     one_client\<lparr>open_sockets := {4, 8, 12}, nonblocking := {4, 8, 12},
       calls := calls one_client @
         [Accept 4, Calloc, Stderr (''malloc failed: Not enough space'' @ [CHR 0x0A])]\<rparr>"

definition third_connecting :: accept_env where
  "third_connecting =
     \<lparr>revents = 0x01, accept_ret = 16, accept_nonblocking = True,
      inet_ntoa_ret = ''10.0.0.11'', calloc_ret = 200, open_osfhandle_ret = 6,
      error_text = []\<rparr>"

definition two_clients :: world where
  "two_clients =
     \<lparr>heap = [100 \<mapsto> peer 5 8, 200 \<mapsto> peer 6 16], client_tailq_head = [100, 200],
      w_accept = listener,
      loop = {Server_watcher, Client_watcher 100, Client_watcher 200},
      open_sockets = {4, 8, 12, 16}, nonblocking = {4, 8, 12, 16},
      calls = calls one_unwrapped @
        [Accept 4, Calloc, Open_osfhandle 16, Ev_io_start (Client_watcher 200),
         Stdout (''Accepted connection from 10.0.0.11'' @ [CHR 0x0A])]\<rparr>"

definition first_gone :: world where
  "first_gone =
     \<lparr>heap = [200 \<mapsto> peer 6 16], client_tailq_head = [200], w_accept = listener,
      loop = {Server_watcher, Client_watcher 200},
      open_sockets = {4, 12, 16}, nonblocking = {4, 12, 16},
      calls = calls two_clients @
        [Recv 8, Ev_io_stop (Client_watcher 100), Closesocket 8, Free 100]\<rparr>"

section \<open>Lemmas on the operations\<close>

lemma emit_simps [simp]:
  "heap (emit c s) = heap s"
  "client_tailq_head (emit c s) = client_tailq_head s"
  "w_accept (emit c s) = w_accept s"
  "loop (emit c s) = loop s"
  "open_sockets (emit c s) = open_sockets s"
  "nonblocking (emit c s) = nonblocking s"
  "calls (emit c s) = calls s @ [c]"
  by (simp_all add: emit_def)

lemma foreach_send:
  "\<forall>q\<in>set qs. heap s q \<noteq> None \<Longrightarrow>
   tailq_foreach_send f P bytes qs s =
     Inr (s\<lparr>calls := calls s @
            map (\<lambda>q. Send (socketd (the (heap s q))) bytes) (filter (\<lambda>q. q \<noteq> P) qs)\<rparr>)"
proof (induction qs arbitrary: s)
  case Nil
  then show ?case by simp
next
  case (Cons q qs)
  show ?case
  proof (cases "q = P")
    case True
    with Cons show ?thesis by simp
  next
    case False
    from Cons.prems obtain c where c: "heap s q = Some c" by auto
    let ?s = "send (f (socketd c) bytes) (socketd c) bytes s"
    have h: "heap ?s = heap s" by (simp add: send_def)
    have "\<forall>q\<in>set qs. heap ?s q \<noteq> None" using Cons.prems h by simp
    from Cons.IH [OF this] show ?thesis using False c
      by (simp add: send_def emit_def)
  qed
qed

lemma read_cb_data:
  assumes "heap s P = Some tc" and "0 < recv_ret r" and "clients_allocated s"
  shows "read_cb (r # rs) f P s = read_cb rs f P (s\<lparr>calls := calls s @ round_calls P s r\<rparr>)"
proof -
  let ?s1 = "emit (Recv (socketd tc)) s"
  have "\<forall>q\<in>set (client_tailq_head s). heap ?s1 q \<noteq> None"
    using assms(3) by (simp add: clients_allocated_def list_all_iff)
  from foreach_send [OF this, of f P "chunk r"]
  have fe: "tailq_foreach_send f P (chunk r) (client_tailq_head s) ?s1 =
              Inr (s\<lparr>calls := calls s @ round_calls P s r\<rparr>)"
    using assms(1) by (simp add: round_calls_def other_sockets_def o_def emit_def)
  have "read_cb (r # rs) f P s =
          (case tailq_foreach_send f P (chunk r) (client_tailq_head s) ?s1 of
             Inl e \<Rightarrow> Inl e | Inr s2 \<Rightarrow> read_cb rs f P s2)"
    using assms(1,2) by (simp add: chunk_def)
  then show ?thesis by (simp add: fe)
qed

lemma read_cb_data_prefix:
  assumes "heap s P = Some tc" and "clients_allocated s" and "\<forall>d\<in>set ds. 0 < recv_ret d"
  shows "read_cb (ds @ rs) f P s =
         read_cb rs f P (s\<lparr>calls := calls s @ concat (map (round_calls P s) ds)\<rparr>)"
  using assms
proof (induction ds arbitrary: s)
  case Nil
  then show ?case by simp
next
  case (Cons d ds)
  let ?s = "s\<lparr>calls := calls s @ round_calls P s d\<rparr>"
  have 1: "heap ?s P = Some tc" using Cons.prems by simp
  have 2: "clients_allocated ?s" using Cons.prems by (simp add: clients_allocated_def)
  have 3: "\<forall>d\<in>set ds. 0 < recv_ret d" using Cons.prems by simp
  have 4: "round_calls P ?s = round_calls P s"
    by (rule ext) (simp add: round_calls_def other_sockets_def)
  have "read_cb ((d # ds) @ rs) f P s = read_cb (ds @ rs) f P ?s"
    using read_cb_data [of s P tc d] Cons.prems by simp
  also have "\<dots> = read_cb rs f P (?s\<lparr>calls := calls ?s @ concat (map (round_calls P ?s) ds)\<rparr>)"
    by (rule Cons.IH [OF 1 2 3])
  finally show ?case by (simp add: 4)
qed

lemma allocated_member:
  "clients_allocated s \<Longrightarrow> P \<in> set (client_tailq_head s) \<Longrightarrow> \<exists>tc. heap s P = Some tc"
  by (auto simp: clients_allocated_def list_all_iff)

lemma own_socket_not_other:
  assumes "sockets_distinct s" and "P \<in> set (client_tailq_head s)"
  shows "socketd (the (heap s P)) \<notin> set (other_sockets P s)"
proof -
  have "inj_on (\<lambda>q. socketd (the (heap s q))) (set (client_tailq_head s))"
    using assms(1) by (simp add: sockets_distinct_def distinct_map)
  then show ?thesis using assms(2)
    by (auto simp: other_sockets_def inj_on_def)
qed

lemma other_sockets_distinct:
  assumes "sockets_distinct s"
  shows "distinct (other_sockets P s)"
  using assms unfolding sockets_distinct_def other_sockets_def
  by (rule distinct_map_filter)

lemma sent_to_append: "sent_to sd (xs @ ys) = sent_to sd xs @ sent_to sd ys"
  by (induction sd xs rule: sent_to.induct) simp_all

lemma sent_to_sends:
  "sent_to sd (map (\<lambda>x. Send x b) xs) = map (\<lambda>x. b) (filter (\<lambda>x. x = sd) xs)"
  by (induction xs) simp_all

lemma filter_eq_distinct:
  "distinct xs \<Longrightarrow> filter (\<lambda>x. x = a) xs = (if a \<in> set xs then [a] else [])"
  by (induction xs) auto

lemma sent_to_round:
  assumes "distinct (other_sockets P s)"
  shows "sent_to sd (round_calls P s d) =
         (if sd \<in> set (other_sockets P s) then [chunk d] else [])"
  by (simp add: round_calls_def sent_to_sends filter_eq_distinct [OF assms])

lemma sent_to_rounds:
  assumes "distinct (other_sockets P s)"
  shows "sent_to sd (concat (map (round_calls P s) ds)) =
         (if sd \<in> set (other_sockets P s) then map chunk ds else [])"
  by (induction ds) (simp_all add: sent_to_append sent_to_round [OF assms])

lemma read_cb_would_block:
  assumes "heap s P = Some tc" and "would_block r"
  shows "read_cb (r # rs) f P s = Inr (s\<lparr>calls := calls s @ [Recv (socketd tc)]\<rparr>)"
  using assms by (simp add: would_block_def emit_def)

lemma read_cb_closes:
  assumes "heap s P = Some tc" and "closes r" and "P \<in> set (client_tailq_head s)"
  shows "read_cb (r # rs) f P s =
         Inr (s\<lparr>heap := (heap s)(P := None),
                client_tailq_head := remove1 P (client_tailq_head s),
                loop := loop s - {Client_watcher P},
                open_sockets := open_sockets s - {socketd tc},
                nonblocking := nonblocking s - {socketd tc},
                calls := calls s @ [Recv (socketd tc), Ev_io_stop (Client_watcher P),
                                    Closesocket (socketd tc), Free P]\<rparr>)"
proof -
  have "read_cb (r # rs) f P s = read_cb_close P tc (emit (Recv (socketd tc)) s)"
    using assms(1,2) by (auto simp: closes_def)
  also have "\<dots> = Inr (s\<lparr>heap := (heap s)(P := None),
                client_tailq_head := remove1 P (client_tailq_head s),
                loop := loop s - {Client_watcher P},
                open_sockets := open_sockets s - {socketd tc},
                nonblocking := nonblocking s - {socketd tc},
                calls := calls s @ [Recv (socketd tc), Ev_io_stop (Client_watcher P),
                                    Closesocket (socketd tc), Free P]\<rparr>)"
    using assms(1,3)
    by (simp add: read_cb_close_def ev_io_stop_def TAILQ_REMOVE_def closesocket_def free_def
        emit_def)
  finally show ?thesis .
qed

lemma foreach_send_ret:
  "tailq_foreach_send f P b qs s = tailq_foreach_send g P b qs s"
  by (induction qs arbitrary: s) (simp_all add: send_def split: option.splits)

lemma read_cb_send_ret:
  "read_cb rs f P s = read_cb rs g P s"
proof (induction rs arbitrary: s)
  case Nil
  show ?case by simp
next
  case (Cons r rs)
  show ?case
  proof (cases "heap s P")
    case None
    then show ?thesis by simp
  next
    case (Some tc)
    let ?s1 = "emit (Recv (socketd tc)) s"
    let ?b = "take (nat (recv_ret r)) (recv_buffer r)"
    have "(case tailq_foreach_send f P ?b (client_tailq_head ?s1) ?s1 of
             Inl e \<Rightarrow> Inl e | Inr s2 \<Rightarrow> read_cb rs f P s2) =
          (case tailq_foreach_send g P ?b (client_tailq_head ?s1) ?s1 of
             Inl e \<Rightarrow> Inl e | Inr s2 \<Rightarrow> read_cb rs g P s2)"
      by (simp add: foreach_send_ret [of f _ _ _ _ g] Cons.IH split: sum.split)
    with Some show ?thesis by (simp add: Let_def)
  qed
qed

lemma three_clients_ok:
  "clients_allocated three_clients" "sockets_distinct three_clients"
  "distinct (client_tailq_head three_clients)"
  by (simp_all add: clients_allocated_def sockets_distinct_def three_clients_def peer_def)

lemma read_cb_run_calls:
  assumes "P \<in> set (client_tailq_head s)"
    and "clients_allocated s"
    and "\<forall>d\<in>set ds. 0 < recv_ret d"
    and "recv_ret r \<le> 0"
  shows "\<exists>s'. (\<forall>rest. read_cb (ds @ r # rest) f P s = Inr s') \<and>
           calls s' = calls s @ concat (map (round_calls P s) ds) @
             Recv (socketd (the (heap s P))) #
             (if would_block r then []
              else [Ev_io_stop (Client_watcher P), Closesocket (socketd (the (heap s P))),
                    Free P])"
proof -
  from allocated_member [OF assms(2,1)] obtain tc where tc: "heap s P = Some tc" ..
  let ?s = "s\<lparr>calls := calls s @ concat (map (round_calls P s) ds)\<rparr>"
  have pre: "read_cb (ds @ r # rest) f P s = read_cb (r # rest) f P ?s" for rest
    by (rule read_cb_data_prefix [OF tc assms(2,3)])
  have tc': "heap ?s P = Some tc" and mem: "P \<in> set (client_tailq_head ?s)"
    using tc assms(1) by simp_all
  show ?thesis
  proof (cases "would_block r")
    case True
    let ?s' = "?s\<lparr>calls := calls ?s @ [Recv (socketd tc)]\<rparr>"
    have "read_cb (ds @ r # rest) f P s = Inr ?s'" for rest
      unfolding pre by (rule read_cb_would_block [OF tc' True])
    with tc True show ?thesis by (intro exI [of _ ?s']) simp
  next
    case False
    with assms(4) have c: "closes r" by (auto simp: would_block_def closes_def)
    let ?s' = "?s\<lparr>heap := (heap ?s)(P := None),
                client_tailq_head := remove1 P (client_tailq_head ?s),
                loop := loop ?s - {Client_watcher P},
                open_sockets := open_sockets ?s - {socketd tc},
                nonblocking := nonblocking ?s - {socketd tc},
                calls := calls ?s @ [Recv (socketd tc), Ev_io_stop (Client_watcher P),
                                    Closesocket (socketd tc), Free P]\<rparr>"
    have "read_cb (ds @ r # rest) f P s = Inr ?s'" for rest
      unfolding pre by (rule read_cb_closes [OF tc' c mem])
    with tc False show ?thesis by (intro exI [of _ ?s']) simp
  qed
qed

lemma round_calls_inline:
  "round_calls P s =
     (\<lambda>d. Recv (socketd (the (heap s P))) #
        map (\<lambda>q. Send (socketd (the (heap s q))) (take (nat (recv_ret d)) (recv_buffer d)))
          (filter (\<lambda>q. q \<noteq> P) (client_tailq_head s)))"
  by (rule ext) (simp add: round_calls_def other_sockets_def chunk_def o_def)

section \<open>The read handler\<close>

text \<open>
  C1. Let \<open>P\<close> be a client in the queue, let the reads of a readiness event return data
  (\<open>n > 0\<close> bytes each) until one returns no data. Then the handler returns, and the calls
  it has issued are, for each read of data in the order of the reads, the \<^verbatim>\<open>recv\<close> and one
  \<^verbatim>\<open>send\<close> of exactly the \<open>n\<close> bytes read to the socket of each client in the queue other
  than \<open>P\<close>, in queue order; then the last \<^verbatim>\<open>recv\<close> and, unless it would block, the three
  calls of the teardown. So what has been sent to every other client in the queue is the
  list of the byte strings read, and nothing has been sent to the socket of \<open>P\<close>.
\<close>

theorem read_cb_broadcast:
  assumes "P \<in> set (client_tailq_head s)"
    and "clients_allocated s"
    and "sockets_distinct s"
    and "list_all (\<lambda>d. 0 < recv_ret d) ds"
    and "recv_ret r \<le> 0"
  shows "\<exists>s'. (\<forall>rest. read_cb (ds @ r # rest) send_ret P s = Inr s') \<and>
           calls s' = calls s @
             concat (map (\<lambda>d. Recv (socketd (the (heap s P))) #
                            map (\<lambda>q. Send (socketd (the (heap s q)))
                                        (take (nat (recv_ret d)) (recv_buffer d)))
                              (filter (\<lambda>q. q \<noteq> P) (client_tailq_head s))) ds) @
             Recv (socketd (the (heap s P))) #
             (if would_block r then []
              else [Ev_io_stop (Client_watcher P), Closesocket (socketd (the (heap s P))),
                    Free P]) \<and>
           (\<forall>q\<in>set (client_tailq_head s). q \<noteq> P \<longrightarrow>
              sent_to (socketd (the (heap s q))) (drop (length (calls s)) (calls s')) =
                map (\<lambda>d. take (nat (recv_ret d)) (recv_buffer d)) ds) \<and>
           sent_to (socketd (the (heap s P))) (drop (length (calls s)) (calls s')) = []"
proof -
  let ?sP = "socketd (the (heap s P))"
  let ?tail = "if would_block r then []
               else [Ev_io_stop (Client_watcher P), Closesocket ?sP, Free P]"
  from read_cb_run_calls [OF assms(1,2) assms(4) [unfolded list_all_iff] assms(5), of send_ret]
  obtain s' where run: "\<forall>rest. read_cb (ds @ r # rest) send_ret P s = Inr s'"
    and cs: "calls s' = calls s @ concat (map (round_calls P s) ds) @ Recv ?sP # ?tail"
    by blast
  have d: "distinct (other_sockets P s)" by (rule other_sockets_distinct [OF assms(3)])
  have sent: "sent_to sd (drop (length (calls s)) (calls s')) =
              (if sd \<in> set (other_sockets P s) then map chunk ds else [])" for sd
    unfolding cs by (simp add: sent_to_append sent_to_rounds [OF d])
  have others: "sent_to (socketd (the (heap s q))) (drop (length (calls s)) (calls s')) =
                map (\<lambda>d. take (nat (recv_ret d)) (recv_buffer d)) ds"
    if "q \<in> set (client_tailq_head s)" "q \<noteq> P" for q
  proof -
    from that have "socketd (the (heap s q)) \<in> set (other_sockets P s)"
      by (auto simp: other_sockets_def)
    then show ?thesis unfolding sent by (simp add: chunk_def [abs_def])
  qed
  have own: "sent_to ?sP (drop (length (calls s)) (calls s')) = []"
    unfolding sent using own_socket_not_other [OF assms(3,1)] by simp
  have "calls s' = calls s @
             concat (map (\<lambda>d. Recv ?sP #
                            map (\<lambda>q. Send (socketd (the (heap s q)))
                                        (take (nat (recv_ret d)) (recv_buffer d)))
                              (filter (\<lambda>q. q \<noteq> P) (client_tailq_head s))) ds) @
             Recv ?sP # ?tail"
    using cs by (simp only: round_calls_inline)
  with run others own show ?thesis by blast
qed

theorem read_cb_broadcast_witness:
  "100 \<in> set (client_tailq_head three_clients) \<and>
   clients_allocated three_clients \<and>
   sockets_distinct three_clients \<and>
   list_all (\<lambda>d. 0 < recv_ret d) [hi] \<and>
   recv_ret no_more \<le> 0 \<and>
   (\<exists>s'. (\<forall>rest. read_cb ([hi] @ no_more # rest) (\<lambda>sd b. 2) 100 three_clients = Inr s') \<and>
      calls s' = [Recv 8, Send 12 [0x68, 0x69], Send 16 [0x68, 0x69], Recv 8] \<and>
      sent_to 12 (calls s') = [[0x68, 0x69]] \<and>
      sent_to 16 (calls s') = [[0x68, 0x69]] \<and>
      sent_to 8 (calls s') = [])"
proof -
  have h: "100 \<in> set (client_tailq_head three_clients)" "list_all (\<lambda>d. 0 < recv_ret d) [hi]"
      "recv_ret no_more \<le> 0"
    by (simp_all add: three_clients_def hi_def no_more_def)
  from read_cb_broadcast [OF h(1) three_clients_ok(1,2) h(2,3), of "\<lambda>sd b. 2"]
  obtain s' where run: "\<forall>rest. read_cb ([hi] @ no_more # rest) (\<lambda>sd b. 2) 100 three_clients = Inr s'"
    and cs: "calls s' = calls three_clients @
             concat (map (\<lambda>d. Recv (socketd (the (heap three_clients 100))) #
                            map (\<lambda>q. Send (socketd (the (heap three_clients q)))
                                        (take (nat (recv_ret d)) (recv_buffer d)))
                              (filter (\<lambda>q. q \<noteq> 100) (client_tailq_head three_clients))) [hi]) @
             Recv (socketd (the (heap three_clients 100))) #
             (if would_block no_more then []
              else [Ev_io_stop (Client_watcher 100),
                    Closesocket (socketd (the (heap three_clients 100))), Free 100])"
    by blast
  have c: "calls s' = [Recv 8, Send 12 [0x68, 0x69], Send 16 [0x68, 0x69], Recv 8]"
    unfolding cs
    by (simp add: three_clients_def hi_def no_more_def peer_def would_block_def
        WSAEWOULDBLOCK_def)
  have "sent_to 12 (calls s') = [[0x68, 0x69]]" "sent_to 16 (calls s') = [[0x68, 0x69]]"
      "sent_to 8 (calls s') = []"
    unfolding c by simp_all
  with run c have "\<exists>s'. (\<forall>rest. read_cb ([hi] @ no_more # rest) (\<lambda>sd b. 2) 100 three_clients = Inr s') \<and>
      calls s' = [Recv 8, Send 12 [0x68, 0x69], Send 16 [0x68, 0x69], Recv 8] \<and>
      sent_to 12 (calls s') = [[0x68, 0x69]] \<and>
      sent_to 16 (calls s') = [[0x68, 0x69]] \<and>
      sent_to 8 (calls s') = []"
    by blast
  with h three_clients_ok(1,2) show ?thesis by blast
qed

text \<open>
  C2. Let \<open>P\<close> be a client in the queue. When, after any number of reads that returned data,
  \<^verbatim>\<open>recv\<close> returns 0 or fails with an error other than \<^verbatim>\<open>WSAEWOULDBLOCK\<close>, the handler returns
  in that invocation, having stopped the watcher of \<open>P\<close>, unlinked \<open>P\<close> from the queue, closed
  its socket and freed its object, in this order and as its last calls; the reads that would
  follow are not made.
\<close>

theorem read_cb_teardown:
  assumes "P \<in> set (client_tailq_head s)"
    and "clients_allocated s"
    and "distinct (client_tailq_head s)"
    and "list_all (\<lambda>d. 0 < recv_ret d) ds"
    and "closes r"
  shows "\<exists>s'. (\<forall>rest. read_cb (ds @ r # rest) send_ret P s = Inr s') \<and>
           heap s' = (heap s)(P := None) \<and>
           client_tailq_head s' = remove1 P (client_tailq_head s) \<and>
           P \<notin> set (client_tailq_head s') \<and>
           loop s' = loop s - {Client_watcher P} \<and>
           open_sockets s' = open_sockets s - {socketd (the (heap s P))} \<and>
           nonblocking s' = nonblocking s - {socketd (the (heap s P))} \<and>
           w_accept s' = w_accept s \<and>
           calls s' = calls s @ concat (map (round_calls P s) ds) @
             [Recv (socketd (the (heap s P))), Ev_io_stop (Client_watcher P),
              Closesocket (socketd (the (heap s P))), Free P]"
proof -
  from allocated_member [OF assms(2,1)] obtain tc where tc: "heap s P = Some tc" ..
  let ?s = "s\<lparr>calls := calls s @ concat (map (round_calls P s) ds)\<rparr>"
  let ?s' = "?s\<lparr>heap := (heap ?s)(P := None),
                client_tailq_head := remove1 P (client_tailq_head ?s),
                loop := loop ?s - {Client_watcher P},
                open_sockets := open_sockets ?s - {socketd tc},
                nonblocking := nonblocking ?s - {socketd tc},
                calls := calls ?s @ [Recv (socketd tc), Ev_io_stop (Client_watcher P),
                                    Closesocket (socketd tc), Free P]\<rparr>"
  have run: "read_cb (ds @ r # rest) send_ret P s = Inr ?s'" for rest
  proof -
    have "read_cb (ds @ r # rest) send_ret P s = read_cb (r # rest) send_ret P ?s"
      by (rule read_cb_data_prefix [OF tc assms(2) assms(4) [unfolded list_all_iff]])
    also have "\<dots> = Inr ?s'"
      by (rule read_cb_closes) (use tc assms(1,5) in simp_all)
    finally show ?thesis .
  qed
  have "P \<notin> set (client_tailq_head ?s')" using assms(3) by simp
  with run tc show ?thesis by (intro exI [of _ ?s']) simp
qed

theorem read_cb_teardown_witness:
  "200 \<in> set (client_tailq_head three_clients) \<and>
   clients_allocated three_clients \<and>
   distinct (client_tailq_head three_clients) \<and>
   list_all (\<lambda>d. 0 < recv_ret d) [hi] \<and>
   closes reset \<and>
   (\<exists>s'. (\<forall>rest. read_cb ([hi] @ reset # rest) (\<lambda>sd b. 2) 200 three_clients = Inr s') \<and>
      heap s' = [100 \<mapsto> peer 5 8, 300 \<mapsto> peer 7 16] \<and>
      client_tailq_head s' = [100, 300] \<and>
      loop s' = {Server_watcher, Client_watcher 100, Client_watcher 300} \<and>
      open_sockets s' = {4, 8, 16} \<and>
      nonblocking s' = {4, 8, 16} \<and>
      calls s' = [Recv 12, Send 8 [0x68, 0x69], Send 16 [0x68, 0x69],
                  Recv 12, Ev_io_stop (Client_watcher 200), Closesocket 12, Free 200])"
proof -
  have h: "200 \<in> set (client_tailq_head three_clients)" "list_all (\<lambda>d. 0 < recv_ret d) [hi]"
      "closes reset"
    by (simp_all add: three_clients_def hi_def closes_def reset_def WSAEWOULDBLOCK_def)
  have c: "calls three_clients @ concat (map (round_calls 200 three_clients) [hi]) =
           [Recv 12, Send 8 [0x68, 0x69], Send 16 [0x68, 0x69]]"
    by (simp add: three_clients_def round_calls_def other_sockets_def chunk_def hi_def peer_def)
  have e: "(heap three_clients)(200 := None) = [100 \<mapsto> peer 5 8, 300 \<mapsto> peer 7 16]"
      "remove1 200 (client_tailq_head three_clients) = [100, 300]"
      "open_sockets three_clients - {socketd (the (heap three_clients 200))} = {4, 8, 16}"
      "nonblocking three_clients - {socketd (the (heap three_clients 200))} = {4, 8, 16}"
      "loop three_clients - {Client_watcher 200} =
         {Server_watcher, Client_watcher 100, Client_watcher 300}"
      "socketd (the (heap three_clients 200)) = 12"
    by (auto simp: three_clients_def peer_def)
  from read_cb_teardown [OF h(1) three_clients_ok(1,3) h(2,3), of "\<lambda>sd b. 2"]
  obtain s' where s': "\<forall>rest. read_cb ([hi] @ reset # rest) (\<lambda>sd b. 2) 200 three_clients = Inr s'"
    "heap s' = (heap three_clients)(200 := None)"
    "client_tailq_head s' = remove1 200 (client_tailq_head three_clients)"
    "loop s' = loop three_clients - {Client_watcher 200}"
    "open_sockets s' = open_sockets three_clients - {socketd (the (heap three_clients 200))}"
    "nonblocking s' = nonblocking three_clients - {socketd (the (heap three_clients 200))}"
    "calls s' = calls three_clients @ concat (map (round_calls 200 three_clients) [hi]) @
             [Recv (socketd (the (heap three_clients 200))), Ev_io_stop (Client_watcher 200),
              Closesocket (socketd (the (heap three_clients 200))), Free 200]"
    by blast
  have "calls s' = [Recv 12, Send 8 [0x68, 0x69], Send 16 [0x68, 0x69],
                  Recv 12, Ev_io_stop (Client_watcher 200), Closesocket 12, Free 200]"
    using s'(7) c by (simp add: e(6))
  moreover have "heap s' = [100 \<mapsto> peer 5 8, 300 \<mapsto> peer 7 16]"
      "client_tailq_head s' = [100, 300]"
      "loop s' = {Server_watcher, Client_watcher 100, Client_watcher 300}"
      "open_sockets s' = {4, 8, 16}" "nonblocking s' = {4, 8, 16}"
    using s'(2-6) e by simp_all
  ultimately have "\<exists>s'. (\<forall>rest. read_cb ([hi] @ reset # rest) (\<lambda>sd b. 2) 200 three_clients = Inr s') \<and>
      heap s' = [100 \<mapsto> peer 5 8, 300 \<mapsto> peer 7 16] \<and>
      client_tailq_head s' = [100, 300] \<and>
      loop s' = {Server_watcher, Client_watcher 100, Client_watcher 300} \<and>
      open_sockets s' = {4, 8, 16} \<and>
      nonblocking s' = {4, 8, 16} \<and>
      calls s' = [Recv 12, Send 8 [0x68, 0x69], Send 16 [0x68, 0x69],
                  Recv 12, Ev_io_stop (Client_watcher 200), Closesocket 12, Free 200]"
    using s'(1) by blast
  with h three_clients_ok(1,3) show ?thesis by blast
qed

text \<open>
  C3. Let \<open>P\<close> be a client in the queue. When, after any number of reads that returned data,
  \<^verbatim>\<open>recv\<close> fails with \<^verbatim>\<open>WSAEWOULDBLOCK\<close>, the handler returns at once: the heap (and with it
  the \<^verbatim>\<open>active\<close> flag of \<open>P\<close>), the queue, the watchers started in the loop, the open sockets
  and their mode, and the listener are as they were before the event, and the only calls
  issued are the reads and the sends of the data read.
\<close>

theorem read_cb_would_block_exit:
  assumes "P \<in> set (client_tailq_head s)"
    and "clients_allocated s"
    and "list_all (\<lambda>d. 0 < recv_ret d) ds"
    and "would_block r"
  shows "\<exists>s'. (\<forall>rest. read_cb (ds @ r # rest) send_ret P s = Inr s') \<and>
           heap s' = heap s \<and>
           client_tailq_head s' = client_tailq_head s \<and>
           loop s' = loop s \<and>
           open_sockets s' = open_sockets s \<and>
           nonblocking s' = nonblocking s \<and>
           w_accept s' = w_accept s \<and>
           calls s' = calls s @ concat (map (round_calls P s) ds) @
             [Recv (socketd (the (heap s P)))]"
proof -
  from allocated_member [OF assms(2,1)] obtain tc where tc: "heap s P = Some tc" ..
  let ?s = "s\<lparr>calls := calls s @ concat (map (round_calls P s) ds)\<rparr>"
  let ?s' = "?s\<lparr>calls := calls ?s @ [Recv (socketd tc)]\<rparr>"
  have run: "read_cb (ds @ r # rest) send_ret P s = Inr ?s'" for rest
  proof -
    have "read_cb (ds @ r # rest) send_ret P s = read_cb (r # rest) send_ret P ?s"
      by (rule read_cb_data_prefix [OF tc assms(2) assms(3) [unfolded list_all_iff]])
    also have "\<dots> = Inr ?s'"
      by (rule read_cb_would_block) (use tc assms(4) in simp_all)
    finally show ?thesis .
  qed
  with tc show ?thesis by (intro exI [of _ ?s']) simp
qed

theorem read_cb_would_block_exit_witness:
  "100 \<in> set (client_tailq_head three_clients) \<and>
   clients_allocated three_clients \<and>
   list_all (\<lambda>d. 0 < recv_ret d) [hi] \<and>
   would_block no_more \<and>
   (\<exists>s'. (\<forall>rest. read_cb ([hi] @ no_more # rest) (\<lambda>sd b. 2) 100 three_clients = Inr s') \<and>
      heap s' = heap three_clients \<and>
      client_tailq_head s' = [100, 200, 300] \<and>
      loop s' = loop three_clients \<and>
      open_sockets s' = {4, 8, 12, 16} \<and>
      nonblocking s' = {4, 8, 12, 16} \<and>
      calls s' = [Recv 8, Send 12 [0x68, 0x69], Send 16 [0x68, 0x69], Recv 8])"
proof -
  have h: "100 \<in> set (client_tailq_head three_clients)" "list_all (\<lambda>d. 0 < recv_ret d) [hi]"
      "would_block no_more"
    by (simp_all add: three_clients_def hi_def would_block_def no_more_def WSAEWOULDBLOCK_def)
  have c: "calls three_clients @ concat (map (round_calls 100 three_clients) [hi]) @
             [Recv (socketd (the (heap three_clients 100)))] =
           [Recv 8, Send 12 [0x68, 0x69], Send 16 [0x68, 0x69], Recv 8]"
    by (simp add: three_clients_def round_calls_def other_sockets_def chunk_def hi_def peer_def)
  have e: "client_tailq_head three_clients = [100, 200, 300]"
      "open_sockets three_clients = {4, 8, 12, 16}"
      "nonblocking three_clients = {4, 8, 12, 16}"
    by (simp_all add: three_clients_def)
  from read_cb_would_block_exit [OF h(1) three_clients_ok(1) h(2,3), of "\<lambda>sd b. 2"]
  have "\<exists>s'. (\<forall>rest. read_cb ([hi] @ no_more # rest) (\<lambda>sd b. 2) 100 three_clients = Inr s') \<and>
      heap s' = heap three_clients \<and>
      client_tailq_head s' = [100, 200, 300] \<and>
      loop s' = loop three_clients \<and>
      open_sockets s' = {4, 8, 12, 16} \<and>
      nonblocking s' = {4, 8, 12, 16} \<and>
      calls s' = [Recv 8, Send 12 [0x68, 0x69], Send 16 [0x68, 0x69], Recv 8]"
    unfolding c e by blast
  with h three_clients_ok(1) show ?thesis by blast
qed

text \<open>
  C8. Whatever \<^verbatim>\<open>send\<close> returns, for whichever recipient: one pass over the queue issues
  exactly one \<^verbatim>\<open>send\<close> to each client other than the sender (none is repeated, none is left
  out) and changes nothing in the state but the list of calls; and the whole run of the read
  handler is the run in which every \<^verbatim>\<open>send\<close> took all the bytes.
\<close>

theorem send_failure_tolerated:
  assumes "clients_allocated s"
  shows "tailq_foreach_send send_ret P bytes (client_tailq_head s) s =
           Inr (s\<lparr>calls := calls s @ map (\<lambda>sd. Send sd bytes) (other_sockets P s)\<rparr>) \<and>
         read_cb rs send_ret P s = read_cb rs (\<lambda>sd b. int (length b)) P s"
proof -
  have "\<forall>q\<in>set (client_tailq_head s). heap s q \<noteq> None"
    using assms by (simp add: clients_allocated_def list_all_iff)
  from foreach_send [OF this, of send_ret P bytes]
  have "tailq_foreach_send send_ret P bytes (client_tailq_head s) s =
           Inr (s\<lparr>calls := calls s @ map (\<lambda>sd. Send sd bytes) (other_sockets P s)\<rparr>)"
    by (simp add: other_sockets_def o_def)
  then show ?thesis using read_cb_send_ret [of rs send_ret P s] by simp
qed

theorem send_failure_tolerated_witness:
  "clients_allocated three_clients \<and>
   tailq_foreach_send (\<lambda>sd b. if sd = 12 then - 1 else 2) 100 [0x68, 0x69]
       (client_tailq_head three_clients) three_clients =
     Inr (three_clients\<lparr>calls := [Send 12 [0x68, 0x69], Send 16 [0x68, 0x69]]\<rparr>) \<and>
   read_cb [hi, closed] (\<lambda>sd b. if sd = 12 then - 1 else 2) 100 three_clients =
     read_cb [hi, closed] (\<lambda>sd b. int (length b)) 100 three_clients"
proof -
  have c: "calls three_clients @ map (\<lambda>sd. Send sd [0x68, 0x69]) (other_sockets 100 three_clients) =
           [Send 12 [0x68, 0x69], Send 16 [0x68, 0x69]]"
    by (simp add: three_clients_def other_sockets_def peer_def)
  from send_failure_tolerated [OF three_clients_ok(1),
      of "\<lambda>sd b. if sd = 12 then - 1 else 2" 100 "[0x68, 0x69]" "[hi, closed]"]
  show ?thesis using three_clients_ok(1) unfolding c by blast
qed

section \<open>Lemmas on the accept handler and on startup\<close>

lemma accept_cb_invalid_event:
  assumes "EV_ERROR AND revents env \<noteq> 0"
  shows "accept_cb env s =
         Inr (s\<lparr>calls := calls s @
                [Stderr (''Got invalid event: '' @ error_text env @ [CHR 0x0A])]\<rparr>)"
  using assms by (simp add: accept_cb_def perror_def emit_def)

lemma accept_cb_accept_failed:
  assumes "EV_ERROR AND revents env = 0" and "accept_ret env = INVALID_SOCKET"
  shows "accept_cb env s =
         Inr (s\<lparr>calls := calls s @
                [Accept (server_socketd (w_accept s)),
                 Stderr (''Accept error: '' @ error_text env @ [CHR 0x0A])]\<rparr>)"
  using assms by (simp add: accept_cb_def accept_def socket_perror_def emit_def)

lemma accept_cb_calloc_failed:
  assumes "EV_ERROR AND revents env = 0" and "accept_ret env \<noteq> INVALID_SOCKET"
    and "calloc_ret env = NULL"
  shows "accept_cb env s =
         Inr (s\<lparr>open_sockets := insert (accept_ret env) (open_sockets s),
                nonblocking := (if accept_nonblocking env
                                then insert (accept_ret env) (nonblocking s)
                                else nonblocking s - {accept_ret env}),
                calls := calls s @
                  [Accept (server_socketd (w_accept s)), Calloc,
                   Stderr (''malloc failed: '' @ error_text env @ [CHR 0x0A])]\<rparr>)"
  using assms
  by (simp add: accept_cb_def accept_def calloc_def perror_def emit_def Let_def)

lemma accept_cb_success:
  assumes "EV_ERROR AND revents env = 0" and "accept_ret env \<noteq> INVALID_SOCKET"
    and "calloc_ret env \<noteq> NULL"
  shows "accept_cb env s =
         Inr (s\<lparr>heap := (heap s)(calloc_ret env \<mapsto>
                   \<lparr>io = \<lparr>active = True, cb = Some Read_cb, fd = open_osfhandle_ret env,
                          events = EV_READ\<rparr>,
                    socketd = accept_ret env\<rparr>),
                client_tailq_head := client_tailq_head s @ [calloc_ret env],
                loop := insert (Client_watcher (calloc_ret env)) (loop s),
                open_sockets := insert (accept_ret env) (open_sockets s),
                nonblocking := (if accept_nonblocking env
                                then insert (accept_ret env) (nonblocking s)
                                else nonblocking s - {accept_ret env}),
                calls := calls s @
                  [Accept (server_socketd (w_accept s)), Calloc,
                   Open_osfhandle (accept_ret env),
                   Ev_io_start (Client_watcher (calloc_ret env)),
                   Stdout (''Accepted connection from '' @ inet_ntoa_ret env
                           @ [CHR 0x0A])]\<rparr>)"
  using assms
  by (simp add: accept_cb_def accept_def calloc_def on_ok_def update_client_def
      ev_io_start_def ev_io_init_def TAILQ_INSERT_TAIL_def zeroed_client_def emit_def Let_def)

lemma main_failure:
  assumes "socket_ret env = INVALID_SOCKET \<or> ioctlsocket_ret env \<noteq> 0 \<or>
           setsockopt_ret env \<noteq> 0 \<or> bind_ret env \<noteq> 0 \<or> listen_ret env \<noteq> 0"
  shows "\<exists>s. main env = Exit EXIT_FAILURE s \<and>
           Ev_loop \<notin> set (calls s) \<and>
           Ev_io_start Server_watcher \<notin> set (calls s) \<and>
           last (calls s) =
             Stderr (failed_operation env @ '': '' @ main_error_text env @ [CHR 0x0A])"
  using assms
  by (auto simp: main_def failed_operation_def socket_def ioctlsocket_def socket_perror_def
      TAILQ_INIT_def process_start_def emit_def Let_def)

lemma main_event_loop:
  assumes "main env = Event_loop s"
  shows "s = \<lparr>heap = Map.empty, client_tailq_head = [],
              w_accept = \<lparr>server_io = \<lparr>active = True, cb = Some Accept_cb,
                                       fd = listen_fd_ret env, events = EV_READ\<rparr>,
                          server_socketd = socket_ret env\<rparr>,
              loop = {Server_watcher},
              open_sockets = {socket_ret env},
              nonblocking = {socket_ret env},
              calls = [WSAStartup, Socket, Ioctlsocket_FIONBIO (socket_ret env),
                       Setsockopt_REUSEADDR (socket_ret env),
                       Bind (socket_ret env) SERVER_PORT, Listen (socket_ret env) 5,
                       Open_osfhandle (socket_ret env), Ev_io_start Server_watcher,
                       Ev_loop]\<rparr>"
  using assms
  by (simp add: main_def socket_def ioctlsocket_def socket_perror_def TAILQ_INIT_def
      ev_io_init_def process_start_def emit_def Let_def split: if_splits)

lemma main_startup_ok: "main startup_ok = Event_loop listening"
  by (simp add: main_def startup_ok_def listening_def listener_def startup_calls_def
      socket_def ioctlsocket_def TAILQ_INIT_def ev_io_init_def process_start_def emit_def
      Let_def INVALID_SOCKET_def EV_READ_def SERVER_PORT_def)

lemma connecting_ok:
  "EV_ERROR AND revents connecting = 0" "accept_ret connecting \<noteq> INVALID_SOCKET"
  "calloc_ret connecting \<noteq> NULL"
  by (simp_all add: connecting_def EV_ERROR_def INVALID_SOCKET_def NULL_def)

lemma accept_cb_connecting: "accept_cb connecting listening = Inr one_client"
  unfolding accept_cb_success [OF connecting_ok]
  by (simp add: connecting_def listening_def one_client_def listener_def peer_def EV_READ_def
      insert_commute)

section \<open>The accept handler\<close>

text \<open>
  C5, as the code has it. When \<^verbatim>\<open>accept\<close> returns a socket and \<^verbatim>\<open>calloc\<close> returns an object, the
  handler appends exactly that one object, holding the accepted socket, at the tail of the
  queue and leaves the rest of the queue as it was; the object's watcher is initialised for
  \<^verbatim>\<open>read_cb\<close> and \<^verbatim>\<open>EV_READ\<close> and started in the loop; the line \<^verbatim>\<open>Accepted connection from\<close> with
  the peer's address is printed. The accepted socket is open, in the mode \<^verbatim>\<open>accept\<close> gave it.
\<close>

theorem accept_cb_registers_peer:
  assumes "EV_ERROR AND revents env = 0"
    and "accept_ret env \<noteq> INVALID_SOCKET"
    and "calloc_ret env \<noteq> NULL"
  shows "accept_cb env s =
         Inr (s\<lparr>heap := (heap s)(calloc_ret env \<mapsto>
                   \<lparr>io = \<lparr>active = True, cb = Some Read_cb, fd = open_osfhandle_ret env,
                          events = EV_READ\<rparr>,
                    socketd = accept_ret env\<rparr>),
                client_tailq_head := client_tailq_head s @ [calloc_ret env],
                loop := insert (Client_watcher (calloc_ret env)) (loop s),
                open_sockets := insert (accept_ret env) (open_sockets s),
                nonblocking := (if accept_nonblocking env
                                then insert (accept_ret env) (nonblocking s)
                                else nonblocking s - {accept_ret env}),
                calls := calls s @
                  [Accept (server_socketd (w_accept s)), Calloc,
                   Open_osfhandle (accept_ret env),
                   Ev_io_start (Client_watcher (calloc_ret env)),
                   Stdout (''Accepted connection from '' @ inet_ntoa_ret env
                           @ [CHR 0x0A])]\<rparr>)"
  using assms by (rule accept_cb_success)

theorem accept_cb_registers_peer_witness:
  "EV_ERROR AND revents connecting = 0 \<and>
   accept_ret connecting \<noteq> INVALID_SOCKET \<and>
   calloc_ret connecting \<noteq> NULL \<and>
   accept_cb connecting listening =
     Inr \<lparr>heap = [100 \<mapsto> peer 5 8], client_tailq_head = [100], w_accept = listener,
          loop = {Server_watcher, Client_watcher 100},
          open_sockets = {4, 8}, nonblocking = {4, 8},
          calls = startup_calls @
            [Accept 4, Calloc, Open_osfhandle 8, Ev_io_start (Client_watcher 100),
             Stdout (''Accepted connection from 10.0.0.7'' @ [CHR 0x0A])]\<rparr>"
proof -
  have "accept_cb connecting listening =
     Inr \<lparr>heap = [100 \<mapsto> peer 5 8], client_tailq_head = [100], w_accept = listener,
          loop = {Server_watcher, Client_watcher 100},
          open_sockets = {4, 8}, nonblocking = {4, 8},
          calls = startup_calls @
            [Accept 4, Calloc, Open_osfhandle 8, Ev_io_start (Client_watcher 100),
             Stdout (''Accepted connection from 10.0.0.7'' @ [CHR 0x0A])]\<rparr>"
    unfolding accept_cb_registers_peer [OF connecting_ok]
    by (simp add: connecting_def listening_def listener_def peer_def EV_READ_def
        insert_commute)
  with connecting_ok show ?thesis by blast
qed

text \<open>
  The sentence of C5 as it stands, "for every successful accept exactly one new peer is
  inserted", fails when \<^verbatim>\<open>calloc\<close> returns \<^verbatim>\<open>NULL\<close>: \<^verbatim>\<open>accept\<close> has returned socket 8, and the
  queue is still empty, no watcher was started and no notice was printed.
\<close>

theorem accept_cb_registers_peer_counterexample:
  "accept_ret out_of_memory = 8 \<and>
   accept_cb out_of_memory listening =
     Inr \<lparr>heap = Map.empty, client_tailq_head = [], w_accept = listener,
          loop = {Server_watcher}, open_sockets = {4, 8}, nonblocking = {4, 8},
          calls = startup_calls @
            [Accept 4, Calloc, Stderr (''malloc failed: Not enough space'' @ [CHR 0x0A])]\<rparr>"
proof -
  have h: "EV_ERROR AND revents out_of_memory = 0" "accept_ret out_of_memory \<noteq> INVALID_SOCKET"
      "calloc_ret out_of_memory = NULL"
    by (simp_all add: out_of_memory_def connecting_def EV_ERROR_def INVALID_SOCKET_def NULL_def)
  show ?thesis
    unfolding accept_cb_calloc_failed [OF h]
    by (simp add: out_of_memory_def connecting_def listening_def listener_def insert_commute)
qed

text \<open>
  C6. When \<^verbatim>\<open>accept\<close> is called and returns \<^verbatim>\<open>INVALID_SOCKET\<close>, the handler prints
  \<^verbatim>\<open>Accept error\<close> with the system's text and returns; the heap, the queue, the watchers, the
  open sockets and the listener are as before, the only calls being \<^verbatim>\<open>accept\<close> and the print.
\<close>

theorem accept_cb_accept_error:
  assumes "EV_ERROR AND revents env = 0"
    and "accept_ret env = INVALID_SOCKET"
  shows "accept_cb env s =
         Inr (s\<lparr>calls := calls s @
                [Accept (server_socketd (w_accept s)),
                 Stderr (''Accept error: '' @ error_text env @ [CHR 0x0A])]\<rparr>)"
  using assms by (rule accept_cb_accept_failed)

theorem accept_cb_accept_error_witness:
  "EV_ERROR AND revents refused = 0 \<and>
   accept_ret refused = INVALID_SOCKET \<and>
   accept_cb refused one_client =
     Inr (one_client\<lparr>calls := calls one_client @
            [Accept 4, Stderr (''Accept error: Too many open sockets'' @ [CHR 0x0A])]\<rparr>)"
proof -
  have h: "EV_ERROR AND revents refused = 0" "accept_ret refused = INVALID_SOCKET"
    by (simp_all add: refused_def EV_ERROR_def INVALID_SOCKET_def)
  have "accept_cb refused one_client =
     Inr (one_client\<lparr>calls := calls one_client @
            [Accept 4, Stderr (''Accept error: Too many open sockets'' @ [CHR 0x0A])]\<rparr>)"
    unfolding accept_cb_accept_error [OF h]
    by (simp add: refused_def one_client_def listener_def)
  with h show ?thesis by blast
qed

text \<open>
  C10. When \<^verbatim>\<open>accept\<close> returns a socket and \<^verbatim>\<open>calloc\<close> returns \<^verbatim>\<open>NULL\<close>, the handler prints
  \<^verbatim>\<open>malloc failed\<close> and returns: the heap (so no object), the queue and the watchers started in
  the loop are as before, and the accepted socket is now among the open sockets, in the mode
  \<^verbatim>\<open>accept\<close> gave it, no \<^verbatim>\<open>closesocket\<close> having been issued.
\<close>

theorem accept_cb_calloc_null:
  assumes "EV_ERROR AND revents env = 0"
    and "accept_ret env \<noteq> INVALID_SOCKET"
    and "calloc_ret env = NULL"
  shows "accept_cb env s =
         Inr (s\<lparr>open_sockets := insert (accept_ret env) (open_sockets s),
                nonblocking := (if accept_nonblocking env
                                then insert (accept_ret env) (nonblocking s)
                                else nonblocking s - {accept_ret env}),
                calls := calls s @
                  [Accept (server_socketd (w_accept s)), Calloc,
                   Stderr (''malloc failed: '' @ error_text env @ [CHR 0x0A])]\<rparr>)"
  using assms by (rule accept_cb_calloc_failed)

theorem accept_cb_calloc_null_witness:
  "EV_ERROR AND revents second_out_of_memory = 0 \<and>
   accept_ret second_out_of_memory \<noteq> INVALID_SOCKET \<and>
   calloc_ret second_out_of_memory = NULL \<and>
   accept_cb second_out_of_memory one_client =
     Inr (one_client\<lparr>open_sockets := {4, 8, 12}, nonblocking := {4, 8, 12},
            calls := calls one_client @
              [Accept 4, Calloc, Stderr (''malloc failed: Not enough space'' @ [CHR 0x0A])]\<rparr>)"
proof -
  have h: "EV_ERROR AND revents second_out_of_memory = 0"
      "accept_ret second_out_of_memory \<noteq> INVALID_SOCKET"
      "calloc_ret second_out_of_memory = NULL"
    by (simp_all add: second_out_of_memory_def EV_ERROR_def INVALID_SOCKET_def NULL_def)
  have "accept_cb second_out_of_memory one_client =
     Inr (one_client\<lparr>open_sockets := {4, 8, 12}, nonblocking := {4, 8, 12},
            calls := calls one_client @
              [Accept 4, Calloc, Stderr (''malloc failed: Not enough space'' @ [CHR 0x0A])]\<rparr>)"
    unfolding accept_cb_calloc_null [OF h]
    by (simp add: second_out_of_memory_def one_client_def listener_def insert_commute)
  with h show ?thesis by blast
qed

section \<open>Startup\<close>

text \<open>
  C7. When \<^verbatim>\<open>socket\<close>, \<^verbatim>\<open>ioctlsocket\<close>, \<^verbatim>\<open>setsockopt\<close>, \<^verbatim>\<open>bind\<close> or \<^verbatim>\<open>listen\<close> fails,
  \<^verbatim>\<open>main\<close> returns \<^verbatim>\<open>EXIT_FAILURE\<close>, which is not zero; its last call prints the name of the
  first operation that failed with the system's text; it has started no watcher and has
  not entered the event loop.
\<close>

theorem main_startup_failure:
  assumes "socket_ret env = INVALID_SOCKET \<or> ioctlsocket_ret env \<noteq> 0 \<or>
           setsockopt_ret env \<noteq> 0 \<or> bind_ret env \<noteq> 0 \<or> listen_ret env \<noteq> 0"
  shows "\<exists>s. main env = Exit EXIT_FAILURE s \<and>
           EXIT_FAILURE \<noteq> 0 \<and>
           Ev_loop \<notin> set (calls s) \<and>
           Ev_io_start Server_watcher \<notin> set (calls s) \<and>
           last (calls s) =
             Stderr (failed_operation env @ '': '' @ main_error_text env @ [CHR 0x0A])"
  using main_failure [OF assms] by (simp add: EXIT_FAILURE_def)

theorem main_startup_failure_witness:
  "bind_ret port_taken \<noteq> 0 \<and>
   (\<exists>s. main port_taken = Exit 1 s \<and>
      Ev_loop \<notin> set (calls s) \<and>
      Ev_io_start Server_watcher \<notin> set (calls s) \<and>
      last (calls s) = Stderr (''bind: Address already in use'' @ [CHR 0x0A]))"
proof -
  have h: "bind_ret port_taken \<noteq> 0" by (simp add: port_taken_def)
  then have "socket_ret port_taken = INVALID_SOCKET \<or> ioctlsocket_ret port_taken \<noteq> 0 \<or>
      setsockopt_ret port_taken \<noteq> 0 \<or> bind_ret port_taken \<noteq> 0 \<or> listen_ret port_taken \<noteq> 0"
    by blast
  from main_startup_failure [OF this]
  have "\<exists>s. main port_taken = Exit 1 s \<and>
      Ev_loop \<notin> set (calls s) \<and>
      Ev_io_start Server_watcher \<notin> set (calls s) \<and>
      last (calls s) = Stderr (''bind: Address already in use'' @ [CHR 0x0A])"
    by (simp add: failed_operation_def port_taken_def startup_ok_def INVALID_SOCKET_def
        EXIT_FAILURE_def)
  with h show ?thesis by blast
qed

section \<open>Lemmas on whole runs of the handlers\<close>

lemma foreach_send_calls:
  "tailq_foreach_send f P b qs s = Inr s' \<Longrightarrow>
   \<exists>cs. s' = s\<lparr>calls := calls s @ cs\<rparr> \<and> list_all is_transfer cs"
proof (induction qs arbitrary: s)
  case Nil
  then have "s' = s\<lparr>calls := calls s @ []\<rparr> \<and> list_all is_transfer []" by simp
  then show ?case by blast
next
  case (Cons q qs)
  show ?case
  proof (cases "q = P")
    case True
    with Cons show ?thesis by simp
  next
    case False
    with Cons.prems obtain c where c: "heap s q = Some c"
      by (cases "heap s q") simp_all
    let ?s = "send (f (socketd c) b) (socketd c) b s"
    from Cons.prems False c have "tailq_foreach_send f P b qs ?s = Inr s'" by simp
    from Cons.IH [OF this] obtain cs where
      cs: "s' = ?s\<lparr>calls := calls ?s @ cs\<rparr>" "list_all is_transfer cs" by blast
    have "s' = s\<lparr>calls := calls s @ Send (socketd c) b # cs\<rparr>"
      using cs(1) by (simp add: send_def emit_def)
    moreover have "list_all is_transfer (Send (socketd c) b # cs)" using cs(2) by simp
    ultimately show ?thesis by blast
  qed
qed

text \<open>
  A property of the state holds after a run of \<^verbatim>\<open>read_cb\<close> that returns, when it holds
  before, is kept by issuing reads and sends, and is kept by the four steps of the branch
  \<^verbatim>\<open>read <= 0\<close> for a client that is allocated and in the queue.
\<close>

lemma read_cb_invariant_rule:
  assumes run: "read_cb rs f P s = Inr s'"
    and init: "I s"
    and transfer: "\<And>s cs. I s \<Longrightarrow> list_all is_transfer cs \<Longrightarrow> I (s\<lparr>calls := calls s @ cs\<rparr>)"
    and teardown: "\<And>s tc. I s \<Longrightarrow> heap s P = Some tc \<Longrightarrow> P \<in> set (client_tailq_head s) \<Longrightarrow>
        I (s\<lparr>heap := (heap s)(P := None),
             client_tailq_head := remove1 P (client_tailq_head s),
             loop := loop s - {Client_watcher P},
             open_sockets := open_sockets s - {socketd tc},
             nonblocking := nonblocking s - {socketd tc},
             calls := calls s @ [Ev_io_stop (Client_watcher P), Closesocket (socketd tc),
                                 Free P]\<rparr>)"
  shows "I s'"
  using run init
proof (induction rs arbitrary: s)
  case Nil
  then show ?case by simp
next
  case (Cons r rs)
  from Cons.prems(1) obtain tc where tc: "heap s P = Some tc"
    by (cases "heap s P") simp_all
  let ?s1 = "s\<lparr>calls := calls s @ [Recv (socketd tc)]\<rparr>"
  have I1: "I ?s1" using transfer [OF Cons.prems(2), of "[Recv (socketd tc)]"] by simp
  have "would_block r \<or> closes r \<or> 0 < recv_ret r"
    by (auto simp: would_block_def closes_def)
  then consider (block) "would_block r" | (close) "closes r" | (data) "0 < recv_ret r"
    by blast
  then show ?case
  proof cases
    case block
    from Cons.prems(1) read_cb_would_block [OF tc block, of rs f] have "s' = ?s1" by simp
    with I1 show ?thesis by simp
  next
    case close
    show ?thesis
    proof (cases "P \<in> set (client_tailq_head s)")
      case True
      from Cons.prems(1) read_cb_closes [OF tc close True, of rs f]
      have "s' = ?s1\<lparr>heap := (heap ?s1)(P := None),
             client_tailq_head := remove1 P (client_tailq_head ?s1),
             loop := loop ?s1 - {Client_watcher P},
             open_sockets := open_sockets ?s1 - {socketd tc},
             nonblocking := nonblocking ?s1 - {socketd tc},
             calls := calls ?s1 @ [Ev_io_stop (Client_watcher P), Closesocket (socketd tc),
                                 Free P]\<rparr>"
        by simp
      moreover have "heap ?s1 P = Some tc" "P \<in> set (client_tailq_head ?s1)"
        using tc True by simp_all
      ultimately show ?thesis using teardown [OF I1] by simp
    next
      case False
      have "read_cb (r # rs) f P s = read_cb_close P tc (emit (Recv (socketd tc)) s)"
        using tc close by (auto simp: closes_def)
      also have "\<dots> = Inl (Not_linked P)"
        using tc False by (simp add: read_cb_close_def ev_io_stop_def TAILQ_REMOVE_def)
      finally show ?thesis using Cons.prems(1) by simp
    qed
  next
    case data
    have unfold: "read_cb (r # rs) f P s =
          (case tailq_foreach_send f P (chunk r) (client_tailq_head s) ?s1 of
             Inl e \<Rightarrow> Inl e | Inr s2 \<Rightarrow> read_cb rs f P s2)"
      using tc data by (simp add: chunk_def emit_def)
    with Cons.prems(1) obtain s2 where
      s2: "tailq_foreach_send f P (chunk r) (client_tailq_head s) ?s1 = Inr s2"
        "read_cb rs f P s2 = Inr s'"
      by (cases "tailq_foreach_send f P (chunk r) (client_tailq_head s) ?s1") simp_all
    from foreach_send_calls [OF s2(1)] obtain cs where
      cs: "s2 = ?s1\<lparr>calls := calls ?s1 @ cs\<rparr>" "list_all is_transfer cs" by blast
    have "I s2" using transfer [OF I1 cs(2)] cs(1) by simp
    with Cons.IH [OF s2(2)] show ?thesis .
  qed
qed

lemma accept_cb_cases:
  assumes "accept_cb env s = Inr s'"
  obtains (unchanged) cs where "unwrapped env = {}" "s' = s\<lparr>calls := calls s @ cs\<rparr>"
  | (calloc_failed) cs where "accept_ret env \<noteq> INVALID_SOCKET"
      "unwrapped env = {accept_ret env}"
      "s' = s\<lparr>open_sockets := insert (accept_ret env) (open_sockets s),
              nonblocking := (if accept_nonblocking env
                              then insert (accept_ret env) (nonblocking s)
                              else nonblocking s - {accept_ret env}),
              calls := calls s @ cs\<rparr>"
  | (success) c cs where "accept_ret env \<noteq> INVALID_SOCKET" "calloc_ret env \<noteq> NULL"
      "unwrapped env = {}" "active (io c)" "socketd c = accept_ret env"
      "s' = s\<lparr>heap := (heap s)(calloc_ret env \<mapsto> c),
              client_tailq_head := client_tailq_head s @ [calloc_ret env],
              loop := insert (Client_watcher (calloc_ret env)) (loop s),
              open_sockets := insert (accept_ret env) (open_sockets s),
              nonblocking := (if accept_nonblocking env
                              then insert (accept_ret env) (nonblocking s)
                              else nonblocking s - {accept_ret env}),
              calls := calls s @ cs\<rparr>"
proof (cases "EV_ERROR AND revents env = 0")
  case False
  then have u: "unwrapped env = {}" by (simp add: unwrapped_def)
  from assms accept_cb_invalid_event [OF False, of s]
  have "s' = s\<lparr>calls := calls s @
                [Stderr (''Got invalid event: '' @ error_text env @ [CHR 0x0A])]\<rparr>"
    by simp
  with u show ?thesis by (rule unchanged)
next
  case ev: True
  show ?thesis
  proof (cases "accept_ret env = INVALID_SOCKET")
    case True
    then have u: "unwrapped env = {}" by (simp add: unwrapped_def)
    from assms accept_cb_accept_failed [OF ev True, of s]
    have "s' = s\<lparr>calls := calls s @
                [Accept (server_socketd (w_accept s)),
                 Stderr (''Accept error: '' @ error_text env @ [CHR 0x0A])]\<rparr>"
      by simp
    with u show ?thesis by (rule unchanged)
  next
    case acc: False
    show ?thesis
    proof (cases "calloc_ret env = NULL")
      case True
      with ev acc have u: "unwrapped env = {accept_ret env}" by (simp add: unwrapped_def)
      from assms accept_cb_calloc_failed [OF ev acc True, of s]
      have "s' = s\<lparr>open_sockets := insert (accept_ret env) (open_sockets s),
                nonblocking := (if accept_nonblocking env
                                then insert (accept_ret env) (nonblocking s)
                                else nonblocking s - {accept_ret env}),
                calls := calls s @
                  [Accept (server_socketd (w_accept s)), Calloc,
                   Stderr (''malloc failed: '' @ error_text env @ [CHR 0x0A])]\<rparr>"
        by simp
      with acc u show ?thesis by (rule calloc_failed)
    next
      case False
      then have u: "unwrapped env = {}" by (simp add: unwrapped_def)
      let ?c = "\<lparr>io = \<lparr>active = True, cb = Some Read_cb, fd = open_osfhandle_ret env,
                          events = EV_READ\<rparr>,
                    socketd = accept_ret env\<rparr>"
      let ?cs = "[Accept (server_socketd (w_accept s)), Calloc,
                   Open_osfhandle (accept_ret env),
                   Ev_io_start (Client_watcher (calloc_ret env)),
                   Stdout (''Accepted connection from '' @ inet_ntoa_ret env
                           @ [CHR 0x0A])]"
      from assms accept_cb_success [OF ev acc False, of s]
      have eq: "s' = s\<lparr>heap := (heap s)(calloc_ret env \<mapsto> ?c),
                client_tailq_head := client_tailq_head s @ [calloc_ret env],
                loop := insert (Client_watcher (calloc_ret env)) (loop s),
                open_sockets := insert (accept_ret env) (open_sockets s),
                nonblocking := (if accept_nonblocking env
                                then insert (accept_ret env) (nonblocking s)
                                else nonblocking s - {accept_ret env}),
                calls := calls s @ ?cs\<rparr>"
        by simp
      have a: "active (io ?c)" and b: "socketd ?c = accept_ret env"
        by simp_all
      from acc False u a b eq show ?thesis by (rule success)
    qed
  qed
qed

lemma client_sockets_same: "heap s' = heap s \<Longrightarrow> client_sockets s' = client_sockets s"
  by (simp add: client_sockets_def)

lemma client_sockets_new:
  assumes "heap s' = (heap s)(n \<mapsto> c)" and "heap s n = None"
  shows "client_sockets s' = insert (socketd c) (client_sockets s)"
proof
  show "client_sockets s' \<subseteq> insert (socketd c) (client_sockets s)"
    using assms(1) by (auto simp: client_sockets_def split: if_splits)
next
  show "insert (socketd c) (client_sockets s) \<subseteq> client_sockets s'"
  proof
    fix sd assume "sd \<in> insert (socketd c) (client_sockets s)"
    then consider "sd = socketd c" | "sd \<in> client_sockets s" by blast
    then show "sd \<in> client_sockets s'"
    proof cases
      case 1
      have "heap s' n = Some c" using assms(1) by simp
      with 1 show ?thesis unfolding client_sockets_def by blast
    next
      case 2
      then obtain p e where pe: "heap s p = Some e" "socketd e = sd"
        unfolding client_sockets_def by blast
      with assms(2) have "p \<noteq> n" by auto
      with pe(1) assms(1) have "heap s' p = Some e" by simp
      with pe(2) show ?thesis unfolding client_sockets_def by blast
    qed
  qed
qed

lemma client_sockets_freed:
  assumes "heap s' = (heap s)(P := None)" and "heap s P = Some tc"
    and inj: "\<And>p q c d. heap s p = Some c \<Longrightarrow> heap s q = Some d \<Longrightarrow>
              socketd c = socketd d \<Longrightarrow> p = q"
  shows "client_sockets s' = client_sockets s - {socketd tc}"
proof
  show "client_sockets s' \<subseteq> client_sockets s - {socketd tc}"
  proof
    fix sd assume "sd \<in> client_sockets s'"
    then obtain p e where pe: "heap s' p = Some e" "socketd e = sd"
      unfolding client_sockets_def by blast
    with assms(1) have p: "p \<noteq> P" "heap s p = Some e" by (auto split: if_splits)
    from inj [OF p(2) assms(2)] p(1) have "socketd e \<noteq> socketd tc" by blast
    with p(2) pe(2) show "sd \<in> client_sockets s - {socketd tc}"
      unfolding client_sockets_def by blast
  qed
next
  show "client_sockets s - {socketd tc} \<subseteq> client_sockets s'"
  proof
    fix sd assume "sd \<in> client_sockets s - {socketd tc}"
    then obtain p e where pe: "heap s p = Some e" "socketd e = sd" "sd \<noteq> socketd tc"
      unfolding client_sockets_def by blast
    with assms(2) have "p \<noteq> P" by auto
    with pe(1) assms(1) have "heap s' p = Some e" by simp
    with pe(2) show "sd \<in> client_sockets s'" unfolding client_sockets_def by blast
  qed
qed

lemma registry_consistent_calls:
  "registry_consistent U (s\<lparr>calls := cs\<rparr>) = registry_consistent U s"
  by (simp add: registry_consistent_def client_sockets_def)

lemma registry_consistentD:
  assumes "registry_consistent U s"
  shows "distinct (client_tailq_head s)"
    and "set (client_tailq_head s) = dom (heap s)"
    and "loop s = insert Server_watcher (Client_watcher ` set (client_tailq_head s))"
    and "\<And>p c. heap s p = Some c \<Longrightarrow> active (io c)"
    and "\<And>p q c d. heap s p = Some c \<Longrightarrow> heap s q = Some d \<Longrightarrow>
              socketd c = socketd d \<Longrightarrow> p = q"
    and "open_sockets s = insert (server_socketd (w_accept s)) (client_sockets s \<union> U)"
    and "server_socketd (w_accept s) \<notin> client_sockets s \<union> U"
    and "client_sockets s \<inter> U = {}"
    and "open_sockets s \<subseteq> nonblocking s"
proof -
  note a = assms [unfolded registry_consistent_def]
  show "distinct (client_tailq_head s)" using a by (elim conjE)
  show "set (client_tailq_head s) = dom (heap s)" using a by (elim conjE)
  show "loop s = insert Server_watcher (Client_watcher ` set (client_tailq_head s))"
    using a by (elim conjE)
  have "\<forall>p c. heap s p = Some c \<longrightarrow> active (io c)" using a by (elim conjE)
  then show "\<And>p c. heap s p = Some c \<Longrightarrow> active (io c)" by blast
  have "\<forall>p q c d. heap s p = Some c \<longrightarrow> heap s q = Some d \<longrightarrow>
          socketd c = socketd d \<longrightarrow> p = q"
    using a by (elim conjE)
  then show "\<And>p q c d. heap s p = Some c \<Longrightarrow> heap s q = Some d \<Longrightarrow>
              socketd c = socketd d \<Longrightarrow> p = q"
    by blast
  show "open_sockets s = insert (server_socketd (w_accept s)) (client_sockets s \<union> U)"
    using a by (elim conjE)
  show "server_socketd (w_accept s) \<notin> client_sockets s \<union> U" using a by (elim conjE)
  show "client_sockets s \<inter> U = {}" using a by (elim conjE)
  show "open_sockets s \<subseteq> nonblocking s" using a by (elim conjE)
qed

lemma remove_client_socket:
  assumes "a \<in> C" and "l \<notin> C \<union> U" and "C \<inter> U = {}"
  shows "insert l (C \<union> U) - {a} = insert l ((C - {a}) \<union> U)"
  using assms by auto

lemma read_cb_consistent:
  assumes "read_cb rs f P s = Inr s'" and "registry_consistent U s"
  shows "registry_consistent U s'"
proof (rule read_cb_invariant_rule [OF assms(1), where I = "registry_consistent U"])
  show "registry_consistent U s" by (rule assms(2))
next
  fix x :: world and cs :: "call list"
  assume "registry_consistent U x"
  then show "registry_consistent U (x\<lparr>calls := calls x @ cs\<rparr>)"
    by (simp only: registry_consistent_calls)
next
  fix x :: world and tc :: client_t
  assume inv: "registry_consistent U x" and tc: "heap x P = Some tc"
    and mem: "P \<in> set (client_tailq_head x)"
  let ?x = "x\<lparr>heap := (heap x)(P := None),
             client_tailq_head := remove1 P (client_tailq_head x),
             loop := loop x - {Client_watcher P},
             open_sockets := open_sockets x - {socketd tc},
             nonblocking := nonblocking x - {socketd tc},
             calls := calls x @ [Ev_io_stop (Client_watcher P), Closesocket (socketd tc),
                                 Free P]\<rparr>"
  note d = registry_consistentD(1) [OF inv] and m = registry_consistentD(2) [OF inv]
    and lp = registry_consistentD(3) [OF inv] and a = registry_consistentD(4) [OF inv]
    and i = registry_consistentD(5) [OF inv] and o = registry_consistentD(6) [OF inv]
    and ln = registry_consistentD(7) [OF inv] and dj = registry_consistentD(8) [OF inv]
    and nb = registry_consistentD(9) [OF inv]
  have q: "set (remove1 P (client_tailq_head x)) = set (client_tailq_head x) - {P}"
    using d by simp
  have sd: "socketd tc \<in> client_sockets x" using tc unfolding client_sockets_def by blast
  have cs: "client_sockets ?x = client_sockets x - {socketd tc}"
  proof (rule client_sockets_freed [OF _ tc])
    show "heap ?x = (heap x)(P := None)" by simp
  next
    fix p q c d
    assume "heap x p = Some c" "heap x q = Some d" "socketd c = socketd d"
    then show "p = q" by (rule i)
  qed
  have 1: "distinct (client_tailq_head ?x)" using d by simp
  have 2: "set (client_tailq_head ?x) = dom (heap ?x)" by (simp add: q m)
  have 3: "loop ?x = insert Server_watcher (Client_watcher ` set (client_tailq_head ?x))"
    by (auto simp: q lp)
  have 4: "\<forall>p c. heap ?x p = Some c \<longrightarrow> active (io c)"
    using a by (auto split: if_splits)
  have 5: "\<forall>p q c d. heap ?x p = Some c \<longrightarrow> heap ?x q = Some d \<longrightarrow>
             socketd c = socketd d \<longrightarrow> p = q"
  proof (intro allI impI)
    fix p q c d
    assume "heap ?x p = Some c" "heap ?x q = Some d" and e: "socketd c = socketd d"
    then have "heap x p = Some c" "heap x q = Some d" by (auto split: if_splits)
    from i [OF this e] show "p = q" .
  qed
  have "open_sockets x - {socketd tc} =
          insert (server_socketd (w_accept x)) ((client_sockets x - {socketd tc}) \<union> U)"
    unfolding o by (rule remove_client_socket [OF sd ln dj])
  then have 6: "open_sockets ?x =
      insert (server_socketd (w_accept ?x)) (client_sockets ?x \<union> U)"
    unfolding cs by simp
  have "server_socketd (w_accept x) \<notin> (client_sockets x - {socketd tc}) \<union> U"
    using ln by blast
  then have 7: "server_socketd (w_accept ?x) \<notin> client_sockets ?x \<union> U"
    unfolding cs by simp
  have "(client_sockets x - {socketd tc}) \<inter> U = {}" using dj by blast
  then have 8: "client_sockets ?x \<inter> U = {}" unfolding cs by simp
  have "open_sockets x - {socketd tc} \<subseteq> nonblocking x - {socketd tc}" using nb by blast
  then have 9: "open_sockets ?x \<subseteq> nonblocking ?x" by simp
  show "registry_consistent U ?x"
    unfolding registry_consistent_def using 1 2 3 4 5 6 7 8 9 by (intro conjI)
qed

lemma accept_cb_consistent:
  assumes run: "accept_cb env s = Inr s'" and ok: "accept_env_ok env s"
    and inv: "registry_consistent U s"
  shows "registry_consistent (U \<union> unwrapped env) s'"
proof -
  note d = registry_consistentD(1) [OF inv] and m = registry_consistentD(2) [OF inv]
    and lp = registry_consistentD(3) [OF inv] and a = registry_consistentD(4) [OF inv]
    and i = registry_consistentD(5) [OF inv] and o = registry_consistentD(6) [OF inv]
    and ln = registry_consistentD(7) [OF inv] and dj = registry_consistentD(8) [OF inv]
    and nb = registry_consistentD(9) [OF inv]
  let ?l = "server_socketd (w_accept s)"
  let ?ret = "accept_ret env"
  have mode: "accept_nonblocking env" and fresh: "?ret \<notin> open_sockets s"
    if "?ret \<noteq> INVALID_SOCKET"
  proof -
    from ok that have f: "?ret \<notin> open_sockets s"
      and e: "accept_nonblocking env = (?l \<in> nonblocking s)"
      by (auto simp: accept_env_ok_def)
    have "?l \<in> open_sockets s" unfolding o by simp
    with nb have "?l \<in> nonblocking s" by blast
    with e show "accept_nonblocking env" by simp
    from f show "?ret \<notin> open_sockets s" .
  qed
  have fresh': "?ret \<noteq> ?l \<and> ?ret \<notin> client_sockets s \<and> ?ret \<notin> U"
    if "?ret \<noteq> INVALID_SOCKET"
    using fresh [OF that] unfolding o by simp
  from run show ?thesis
  proof (cases rule: accept_cb_cases)
    case (unchanged cs)
    with inv show ?thesis by (simp only: registry_consistent_calls Un_empty_right)
  next
    case (calloc_failed cs)
    note f = fresh [OF calloc_failed(1)] and md = mode [OF calloc_failed(1)]
    let ?U = "U \<union> unwrapped env"
    have U: "?U = insert ?ret U" using calloc_failed(2) by simp
    have cs: "client_sockets s' = client_sockets s"
      by (rule client_sockets_same) (simp add: calloc_failed(3))
    have hs: "heap s' = heap s" and qs: "client_tailq_head s' = client_tailq_head s"
      and ls: "loop s' = loop s"
      by (simp_all add: calloc_failed(3))
    have 1: "distinct (client_tailq_head s')" unfolding qs by (rule d)
    have 2: "set (client_tailq_head s') = dom (heap s')" unfolding qs hs by (rule m)
    have 3: "loop s' = insert Server_watcher (Client_watcher ` set (client_tailq_head s'))"
      unfolding qs ls by (rule lp)
    have 4: "\<forall>p c. heap s' p = Some c \<longrightarrow> active (io c)"
      unfolding hs using a by blast
    have 5: "\<forall>p q c d. heap s' p = Some c \<longrightarrow> heap s' q = Some d \<longrightarrow>
             socketd c = socketd d \<longrightarrow> p = q"
      unfolding hs using i by blast
    note f' = fresh' [OF calloc_failed(1)]
    have os: "open_sockets s' = insert ?ret (open_sockets s)"
      and ws: "w_accept s' = w_accept s"
      and ns: "nonblocking s' = insert ?ret (nonblocking s)"
      using md by (simp_all add: calloc_failed(3))
    have "insert ?ret (insert ?l (client_sockets s \<union> U)) =
          insert ?l (client_sockets s \<union> insert ?ret U)"
      by blast
    then have 6: "open_sockets s' =
        insert (server_socketd (w_accept s')) (client_sockets s' \<union> ?U)"
      unfolding cs U os ws o .
    have "?l \<notin> client_sockets s \<union> insert ?ret U" using ln f' by auto
    then have 7: "server_socketd (w_accept s') \<notin> client_sockets s' \<union> ?U"
      unfolding cs U ws .
    have "client_sockets s \<inter> insert ?ret U = {}" using dj f' by auto
    then have 8: "client_sockets s' \<inter> ?U = {}" unfolding cs U .
    have 9: "open_sockets s' \<subseteq> nonblocking s'"
      unfolding os ns using nb by blast
    show ?thesis unfolding registry_consistent_def using 1 2 3 4 5 6 7 8 9 by (intro conjI)
  next
    case (success c cs)
    note f = fresh [OF success(1)] and md = mode [OF success(1)]
    let ?n = "calloc_ret env"
    let ?U = "U \<union> unwrapped env"
    have U: "?U = U" using success(3) by simp
    from ok success(2) have hn: "heap s ?n = None" by (auto simp: accept_env_ok_def)
    with m have n: "?n \<notin> set (client_tailq_head s)" by auto
    note f' = fresh' [OF success(1)]
    have hs: "heap s' = (heap s)(?n \<mapsto> c)"
      and qs: "client_tailq_head s' = client_tailq_head s @ [?n]"
      and ls: "loop s' = insert (Client_watcher ?n) (loop s)"
      and os: "open_sockets s' = insert ?ret (open_sockets s)"
      and ws: "w_accept s' = w_accept s"
      and ns: "nonblocking s' = insert ?ret (nonblocking s)"
      using md by (simp_all add: success(6))
    have cs: "client_sockets s' = insert ?ret (client_sockets s)"
      using client_sockets_new [OF hs hn] success(5) by simp
    have 1: "distinct (client_tailq_head s')" unfolding qs using d n by simp
    have 2: "set (client_tailq_head s') = dom (heap s')" unfolding qs hs by (simp add: m)
    have 3: "loop s' = insert Server_watcher (Client_watcher ` set (client_tailq_head s'))"
      unfolding qs ls lp by auto
    have 4: "\<forall>p e. heap s' p = Some e \<longrightarrow> active (io e)"
      unfolding hs using a success(4) by (auto split: if_splits)
    have old: "socketd e \<noteq> ?ret" if "heap s p = Some e" for p e
    proof -
      from that have "socketd e \<in> client_sockets s" unfolding client_sockets_def by blast
      with f' show ?thesis by auto
    qed
    have 5: "\<forall>p q e g. heap s' p = Some e \<longrightarrow> heap s' q = Some g \<longrightarrow>
             socketd e = socketd g \<longrightarrow> p = q"
    proof (intro allI impI)
      fix p q e g
      assume pe: "heap s' p = Some e" and qg: "heap s' q = Some g"
        and eq: "socketd e = socketd g"
      show "p = q"
      proof (cases "p = ?n")
        case pn: True
        with pe hs have e: "e = c" by simp
        show ?thesis
        proof (cases "q = ?n")
          case True
          with pn show ?thesis by simp
        next
          case False
          with qg hs have "heap s q = Some g" by simp
          from old [OF this] eq e success(5) show ?thesis by simp
        qed
      next
        case pn: False
        with pe hs have p: "heap s p = Some e" by simp
        show ?thesis
        proof (cases "q = ?n")
          case True
          with qg hs have "g = c" by simp
          with old [OF p] eq success(5) show ?thesis by simp
        next
          case False
          with qg hs have "heap s q = Some g" by simp
          from i [OF p this eq] show ?thesis .
        qed
      qed
    qed
    have "insert ?ret (insert ?l (client_sockets s \<union> U)) =
          insert ?l (insert ?ret (client_sockets s) \<union> U)"
      by blast
    then have 6: "open_sockets s' =
        insert (server_socketd (w_accept s')) (client_sockets s' \<union> ?U)"
      unfolding cs U os ws o .
    have "?l \<notin> insert ?ret (client_sockets s) \<union> U" using ln f' by auto
    then have 7: "server_socketd (w_accept s') \<notin> client_sockets s' \<union> ?U"
      unfolding cs U ws .
    have "insert ?ret (client_sockets s) \<inter> U = {}" using dj f' by auto
    then have 8: "client_sockets s' \<inter> ?U = {}" unfolding cs U .
    have 9: "open_sockets s' \<subseteq> nonblocking s'"
      unfolding os ns using nb by blast
    show ?thesis unfolding registry_consistent_def using 1 2 3 4 5 6 7 8 9 by (intro conjI)
  qed
qed

lemma reachable_consistent: "reachable U s \<Longrightarrow> registry_consistent U s"
proof (induction rule: reachable.induct)
  case (started env s)
  from main_event_loop [OF started] show ?case
    by (simp add: registry_consistent_def client_sockets_def)
next
  case (accepted U s env s')
  from accept_cb_consistent [OF accepted(4,3,5)] show ?case .
next
  case (read U s p rs send_ret s')
  from read_cb_consistent [OF read(3,4)] show ?case .
qed

text \<open>
  What the theorems on \<^verbatim>\<open>read_cb\<close> ask of the state holds, in every state the server reaches,
  of every client whose watcher is started, and of every client that has a live object.
\<close>

lemma reachable_preconditions:
  assumes "reachable U s" and "Client_watcher P \<in> loop s \<or> heap s P \<noteq> None"
  shows "P \<in> set (client_tailq_head s) \<and> clients_allocated s \<and> sockets_distinct s \<and>
         distinct (client_tailq_head s)"
proof -
  note inv = reachable_consistent [OF assms(1)]
  note d = registry_consistentD(1) [OF inv] and m = registry_consistentD(2) [OF inv]
    and lp = registry_consistentD(3) [OF inv] and i = registry_consistentD(5) [OF inv]
  have "P \<in> set (client_tailq_head s)"
  proof (cases "heap s P")
    case None
    with assms(2) have "Client_watcher P \<in> loop s" by simp
    then show ?thesis unfolding lp by auto
  next
    case (Some c)
    then have "P \<in> dom (heap s)" by blast
    with m show ?thesis by simp
  qed
  moreover have "\<forall>q\<in>set (client_tailq_head s). heap s q \<noteq> None"
    unfolding m by blast
  then have "clients_allocated s"
    by (simp add: clients_allocated_def list_all_iff)
  moreover have "inj_on (\<lambda>q. socketd (the (heap s q))) (set (client_tailq_head s))"
  proof (rule inj_onI)
    fix p q
    assume pm: "p \<in> set (client_tailq_head s)" and qm: "q \<in> set (client_tailq_head s)"
      and e: "socketd (the (heap s p)) = socketd (the (heap s q))"
    from pm m have "p \<in> dom (heap s)" by simp
    then obtain a where a: "heap s p = Some a" by blast
    from qm m have "q \<in> dom (heap s)" by simp
    then obtain b where b: "heap s q = Some b" by blast
    from e a b have "socketd a = socketd b" by simp
    with a b show "p = q" by (rule i)
  qed
  with d have "sockets_distinct s" by (simp add: sockets_distinct_def distinct_map)
  ultimately show ?thesis using d by blast
qed

section \<open>A sample run\<close>

lemma reachable_listening: "reachable {} listening"
  using main_startup_ok by (rule reachable.started)

lemma reachable_one_client: "reachable {} one_client"
proof -
  have "Server_watcher \<in> loop listening"
    by (simp add: listening_def)
  moreover have "accept_env_ok connecting listening"
    by (simp add: accept_env_ok_def connecting_def listening_def listener_def)
  ultimately have "reachable ({} \<union> unwrapped connecting) one_client"
    using reachable_listening accept_cb_connecting by (intro reachable.accepted)
  moreover have "unwrapped connecting = {}"
    by (simp add: unwrapped_def connecting_def NULL_def)
  ultimately show ?thesis by simp
qed

lemma second_out_of_memory_ok:
  "EV_ERROR AND revents second_out_of_memory = 0"
  "accept_ret second_out_of_memory \<noteq> INVALID_SOCKET"
  "calloc_ret second_out_of_memory = NULL"
  by (simp_all add: second_out_of_memory_def EV_ERROR_def INVALID_SOCKET_def NULL_def)

lemma accept_cb_second: "accept_cb second_out_of_memory one_client = Inr one_unwrapped"
  unfolding accept_cb_calloc_failed [OF second_out_of_memory_ok]
  by (simp add: second_out_of_memory_def one_unwrapped_def one_client_def listener_def
      insert_commute)

lemma reachable_one_unwrapped: "reachable {12} one_unwrapped"
proof -
  have "Server_watcher \<in> loop one_client"
    by (simp add: one_client_def)
  moreover have "accept_env_ok second_out_of_memory one_client"
    by (simp add: accept_env_ok_def second_out_of_memory_def one_client_def listener_def)
  ultimately have "reachable ({} \<union> unwrapped second_out_of_memory) one_unwrapped"
    using reachable_one_client accept_cb_second by (intro reachable.accepted)
  moreover have "unwrapped second_out_of_memory = {12}"
    using second_out_of_memory_ok
    by (simp add: unwrapped_def) (simp add: second_out_of_memory_def)
  ultimately show ?thesis by simp
qed

lemma third_connecting_ok:
  "EV_ERROR AND revents third_connecting = 0" "accept_ret third_connecting \<noteq> INVALID_SOCKET"
  "calloc_ret third_connecting \<noteq> NULL"
  by (simp_all add: third_connecting_def EV_ERROR_def INVALID_SOCKET_def NULL_def)

lemma accept_cb_third: "accept_cb third_connecting one_unwrapped = Inr two_clients"
  unfolding accept_cb_success [OF third_connecting_ok]
  by (auto simp: third_connecting_def one_unwrapped_def one_client_def two_clients_def
      listener_def peer_def EV_READ_def)

lemma accept_env_ok_third: "accept_env_ok third_connecting one_unwrapped"
  by (simp add: accept_env_ok_def third_connecting_def one_unwrapped_def one_client_def
      listener_def)

lemma reachable_two_clients: "reachable {12} two_clients"
proof -
  have "Server_watcher \<in> loop one_unwrapped"
    by (simp add: one_unwrapped_def one_client_def)
  then have "reachable ({12} \<union> unwrapped third_connecting) two_clients"
    using reachable_one_unwrapped accept_env_ok_third accept_cb_third
    by (intro reachable.accepted)
  moreover have "unwrapped third_connecting = {}"
    by (simp add: unwrapped_def third_connecting_def NULL_def)
  ultimately show ?thesis by simp
qed

lemma read_cb_first_closes: "read_cb [closed] (\<lambda>sd b. 0) 100 two_clients = Inr first_gone"
proof -
  have "heap two_clients 100 = Some (peer 5 8)" "closes closed"
      "100 \<in> set (client_tailq_head two_clients)"
    by (simp_all add: two_clients_def closes_def closed_def)
  from read_cb_closes [OF this, of "[]" "\<lambda>sd b. 0"] show ?thesis
    by (auto simp: two_clients_def first_gone_def peer_def)
qed

lemma reachable_first_gone: "reachable {12} first_gone"
proof -
  have "Client_watcher 100 \<in> loop two_clients" by (simp add: two_clients_def)
  with reachable_two_clients show ?thesis
    using read_cb_first_closes by (rule reachable.read)
qed

section \<open>The registry\<close>

text \<open>
  C9. In every state the server reaches from startup by runs of \<^verbatim>\<open>accept_cb\<close> and \<^verbatim>\<open>read_cb\<close>
  that return, \<open>U\<close> being the accepted sockets left without a client object by a failed
  \<^verbatim>\<open>calloc\<close>:
  \<^item> no address occurs twice in the queue, and no two clients in the queue hold the same
    socket;
  \<^item> an address is in the queue if and only if its watcher is started in the loop and it
    is a client object whose socket is open;
  \<^item> nothing of a client that has left the queue remains: every started client watcher,
    every live client object and every open socket other than the listening socket and
    those of \<open>U\<close> belongs to a client in the queue;
  \<^item> the client objects in the queue have their \<^verbatim>\<open>active\<close> flag set, and their sockets are
    neither the listening socket nor in \<open>U\<close>.
\<close>

theorem registry_invariant:
  assumes "reachable U s"
  shows "distinct (client_tailq_head s) \<and>
         (\<forall>p. p \<in> set (client_tailq_head s) \<longleftrightarrow>
            Client_watcher p \<in> loop s \<and>
            (\<exists>c. heap s p = Some c \<and> socketd c \<in> open_sockets s)) \<and>
         (\<forall>p. Client_watcher p \<in> loop s \<longrightarrow> p \<in> set (client_tailq_head s)) \<and>
         (\<forall>p. heap s p \<noteq> None \<longrightarrow> p \<in> set (client_tailq_head s)) \<and>
         (\<forall>sd. sd \<in> open_sockets s \<longrightarrow>
            sd = server_socketd (w_accept s) \<or> sd \<in> U \<or>
            (\<exists>p\<in>set (client_tailq_head s). \<exists>c. heap s p = Some c \<and> socketd c = sd)) \<and>
         (\<forall>p\<in>set (client_tailq_head s). \<forall>c. heap s p = Some c \<longrightarrow>
            active (io c) \<and> socketd c \<noteq> server_socketd (w_accept s) \<and> socketd c \<notin> U) \<and>
         (\<forall>p\<in>set (client_tailq_head s). \<forall>q\<in>set (client_tailq_head s). \<forall>c d.
            heap s p = Some c \<longrightarrow> heap s q = Some d \<longrightarrow> socketd c = socketd d \<longrightarrow> p = q)"
proof -
  note inv = reachable_consistent [OF assms]
  note d = registry_consistentD(1) [OF inv] and m = registry_consistentD(2) [OF inv]
    and lp = registry_consistentD(3) [OF inv] and a = registry_consistentD(4) [OF inv]
    and i = registry_consistentD(5) [OF inv] and o = registry_consistentD(6) [OF inv]
    and ln = registry_consistentD(7) [OF inv] and dj = registry_consistentD(8) [OF inv]
  let ?q = "set (client_tailq_head s)"
  have w: "Client_watcher p \<in> loop s \<longleftrightarrow> p \<in> ?q" for p
    unfolding lp by auto
  have live: "heap s p \<noteq> None \<longleftrightarrow> p \<in> ?q" for p
    unfolding m by auto
  have cs: "socketd c \<in> client_sockets s" if "heap s p = Some c" for p c
    using that unfolding client_sockets_def by blast
  have op: "socketd c \<in> open_sockets s" if "heap s p = Some c" for p c
    unfolding o using cs [OF that] by simp
  have 2: "\<forall>p. p \<in> ?q \<longleftrightarrow>
            Client_watcher p \<in> loop s \<and> (\<exists>c. heap s p = Some c \<and> socketd c \<in> open_sockets s)"
  proof
    fix p
    show "p \<in> ?q \<longleftrightarrow>
            Client_watcher p \<in> loop s \<and> (\<exists>c. heap s p = Some c \<and> socketd c \<in> open_sockets s)"
    proof
      assume p: "p \<in> ?q"
      with live [of p] obtain c where c: "heap s p = Some c" by auto
      from op [OF c] c p w [of p]
      show "Client_watcher p \<in> loop s \<and> (\<exists>c. heap s p = Some c \<and> socketd c \<in> open_sockets s)"
        by blast
    next
      assume "Client_watcher p \<in> loop s \<and> (\<exists>c. heap s p = Some c \<and> socketd c \<in> open_sockets s)"
      with w [of p] show "p \<in> ?q" by blast
    qed
  qed
  have 3: "\<forall>p. Client_watcher p \<in> loop s \<longrightarrow> p \<in> ?q" using w by blast
  have 4: "\<forall>p. heap s p \<noteq> None \<longrightarrow> p \<in> ?q" using live by blast
  have 5: "\<forall>sd. sd \<in> open_sockets s \<longrightarrow>
            sd = server_socketd (w_accept s) \<or> sd \<in> U \<or>
            (\<exists>p\<in>?q. \<exists>c. heap s p = Some c \<and> socketd c = sd)"
  proof (intro allI impI)
    fix sd assume "sd \<in> open_sockets s"
    then consider "sd = server_socketd (w_accept s)" | "sd \<in> U" | "sd \<in> client_sockets s"
      unfolding o by blast
    then show "sd = server_socketd (w_accept s) \<or> sd \<in> U \<or>
            (\<exists>p\<in>?q. \<exists>c. heap s p = Some c \<and> socketd c = sd)"
    proof cases
      case 3
      then obtain p c where pc: "heap s p = Some c" "socketd c = sd"
        unfolding client_sockets_def by blast
      with live [of p] have "p \<in> ?q" by simp
      with pc show ?thesis by blast
    qed simp_all
  qed
  have 6: "\<forall>p\<in>?q. \<forall>c. heap s p = Some c \<longrightarrow>
            active (io c) \<and> socketd c \<noteq> server_socketd (w_accept s) \<and> socketd c \<notin> U"
  proof (intro ballI allI impI)
    fix p c assume c: "heap s p = Some c"
    from cs [OF c] ln dj a [OF c]
    show "active (io c) \<and> socketd c \<noteq> server_socketd (w_accept s) \<and> socketd c \<notin> U"
      by auto
  qed
  have 7: "\<forall>p\<in>?q. \<forall>q\<in>?q. \<forall>c d.
            heap s p = Some c \<longrightarrow> heap s q = Some d \<longrightarrow> socketd c = socketd d \<longrightarrow> p = q"
    using i by blast
  from d 2 3 4 5 6 7 show ?thesis by (intro conjI)
qed

theorem registry_invariant_witness:
  "reachable {12} first_gone \<and>
   distinct (client_tailq_head first_gone) \<and>
   200 \<in> set (client_tailq_head first_gone) \<and>
   Client_watcher 200 \<in> loop first_gone \<and>
   (\<exists>c. heap first_gone 200 = Some c \<and> socketd c \<in> open_sockets first_gone) \<and>
   100 \<notin> set (client_tailq_head first_gone) \<and>
   Client_watcher 100 \<notin> loop first_gone \<and>
   heap first_gone 100 = None \<and>
   8 \<notin> open_sockets first_gone \<and>
   12 \<in> open_sockets first_gone"
proof -
  note t = registry_invariant [OF reachable_first_gone]
  note t1 = t [THEN conjunct1]
    and t2 = t [THEN conjunct2, THEN conjunct1]
    and t3 = t [THEN conjunct2, THEN conjunct2, THEN conjunct1]
    and t4 = t [THEN conjunct2, THEN conjunct2, THEN conjunct2, THEN conjunct1]
    and t5 = t [THEN conjunct2, THEN conjunct2, THEN conjunct2, THEN conjunct2,
                THEN conjunct1]
  have q: "client_tailq_head first_gone = [200]" by (simp add: first_gone_def)
  have l: "server_socketd (w_accept first_gone) = 4"
    by (simp add: first_gone_def listener_def)
  have h: "heap first_gone 200 = Some (peer 6 16)" by (simp add: first_gone_def)
  have 1: "distinct (client_tailq_head first_gone)" by (rule t1)
  have in200: "200 \<in> set (client_tailq_head first_gone)" by (simp add: q)
  have out100: "100 \<notin> set (client_tailq_head first_gone)" by (simp add: q)
  from t2 [THEN spec, of 200] in200
  have 23: "Client_watcher 200 \<in> loop first_gone \<and>
      (\<exists>c. heap first_gone 200 = Some c \<and> socketd c \<in> open_sockets first_gone)"
    by (rule iffD1)
  then have 2: "Client_watcher 200 \<in> loop first_gone" by (rule conjunct1)
  from 23 have 3: "\<exists>c. heap first_gone 200 = Some c \<and> socketd c \<in> open_sockets first_gone"
    by (rule conjunct2)
  from t3 [THEN spec, of 100] out100
  have 4: "Client_watcher 100 \<notin> loop first_gone" by blast
  from t4 [THEN spec, of 100] out100
  have 5: "heap first_gone 100 = None" by blast
  from t5 [THEN spec, of 8]
  have 6: "8 \<notin> open_sockets first_gone"
    by (auto simp: l q h peer_def)
  have 7: "12 \<in> open_sockets first_gone" by (simp add: first_gone_def)
  from reachable_first_gone 1 in200 2 3 out100 4 5 6 7 show ?thesis by (intro conjI)
qed

section \<open>The mode of the accepted sockets\<close>



end
